theory Spec2Isabelle
  imports Complex_Main
begin

text \<open>
  A shallow embedding of \<open>src/scraper.py\<close>: the text enrichment functions, the post
  normalizer, the two ingestion passes over the \<open>reddit_posts\<close> table and the
  start-up check of the environment. The forum client, the table, the sentiment
  model and the lower-case table of the Unicode database are external; they enter the
  model as inputs of the functions that call them.
\<close>

section \<open>Text: code points, whitespace and case\<close>

text \<open>
  The free text of a post (title and body) is a Python \<open>str\<close>: a sequence of Unicode
  code points, modelled as a list of natural numbers. \<open>str\<close> writes a literal of the
  source as such a list. Identifiers, names and messages, which the program only
  compares and concatenates, stay of type \<open>string\<close>.
\<close>

type_synonym ustring = "nat list"

definition cp :: "char \<Rightarrow> nat" where
  "cp c = of_char c"

definition str :: "string \<Rightarrow> ustring" where
  "str s = map cp s"

text \<open>
  White space, for \<open>str.strip\<close> and for the class \<open>\s\<close> of a pattern alike: tab to
  carriage return, the separators \<open>0x1C\<close> to \<open>0x1F\<close>, the space, \<open>0x85\<close>, \<open>0xA0\<close>,
  \<open>0x1680\<close>, \<open>0x2000\<close> to \<open>0x200A\<close>, \<open>0x2028\<close>, \<open>0x2029\<close>, \<open>0x202F\<close>, \<open>0x205F\<close> and
  \<open>0x3000\<close>.
\<close>

definition is_space :: "nat \<Rightarrow> bool" where
  "is_space n =
     ((9 \<le> n \<and> n \<le> 13) \<or> (28 \<le> n \<and> n \<le> 32) \<or> n = 133 \<or> n = 160 \<or> n = 5760 \<or>
      (8192 \<le> n \<and> n \<le> 8202) \<or> n = 8232 \<or> n = 8233 \<or> n = 8239 \<or> n = 8287 \<or> n = 12288)"

definition lstrip :: "ustring \<Rightarrow> ustring" where
  "lstrip s = dropWhile is_space s"

definition rstrip :: "ustring \<Rightarrow> ustring" where
  "rstrip s = rev (dropWhile is_space (rev s))"

definition strip :: "ustring \<Rightarrow> ustring" where
  "strip s = rstrip (lstrip s)"

text \<open>Lower case of an ASCII code point: \<open>A\<close> to \<open>Z\<close> move 32 up, the others stay.\<close>

definition ascii_lower :: "nat \<Rightarrow> nat" where
  "ascii_lower n = (if 65 \<le> n \<and> n \<le> 90 then n + 32 else n)"

text \<open>
  \<open>str.lower\<close>. An ASCII code point gives its lower case; the dotted capital I
  (\<open>0x130\<close>) gives \<open>i\<close> followed by the combining dot \<open>0x307\<close>, and the Kelvin sign
  (\<open>0x212A\<close>) gives \<open>k\<close>. The image of any other code point comes from the Unicode
  database of the interpreter, which is not part of the program: \<open>table whole i\<close> is the
  image of the code point at position \<open>i\<close> of the string \<open>whole\<close> (one to three code
  points; for the capital sigma it depends on the neighbours).
\<close>

type_synonym lower_table = "ustring \<Rightarrow> nat \<Rightarrow> nat list"

definition lower_image :: "lower_table \<Rightarrow> ustring \<Rightarrow> nat \<Rightarrow> nat \<Rightarrow> nat list" where
  "lower_image table whole i c =
     (if c < 128 then [ascii_lower c]
      else if c = 304 then [105, 775]
      else if c = 8490 then [107]
      else table whole i)"

fun lower_from :: "lower_table \<Rightarrow> ustring \<Rightarrow> nat \<Rightarrow> ustring \<Rightarrow> ustring" where
  "lower_from table whole i [] = []"
| "lower_from table whole i (c # cs) =
     lower_image table whole i c @ lower_from table whole (Suc i) cs"

definition lower :: "lower_table \<Rightarrow> ustring \<Rightarrow> ustring" where
  "lower table s = lower_from table s 0 s"

section \<open>Regular expressions: the fragment used by the patterns\<close>

text \<open>
  The three patterns of \<open>extract_vendor_name\<close> are built from literal characters,
  character classes, the greedy repetition \<open>+\<close> of a class and one capturing group.
  \<open>Lit\<close>, \<open>Rng\<close> and \<open>Space\<close> are the members of a class (\<open>x\<close>, \<open>a-z\<close>, \<open>\s\<close>);
  \<open>Chr\<close> is one character of a class, \<open>Rep1\<close> is \<open>[...]+\<close>, and \<open>GrpOpen\<close> and
  \<open>GrpClose\<close> are the parentheses of group 1. The flag of \<open>Regex\<close> is \<open>(?i)\<close>.
\<close>

datatype atom = Lit nat | Rng nat nat | Space

datatype item = Chr "atom list" | Rep1 "atom list" | GrpOpen | GrpClose

datatype regex = Regex bool "item list"

text \<open>
  The code points that an ASCII character of a pattern matches under \<open>(?i)\<close>: a letter
  matches its two cases, and besides \<open>i\<close> matches \<open>0x130\<close> and \<open>0x131\<close> (dotted capital
  and dotless small i), \<open>s\<close> matches \<open>0x17F\<close> (long s) and \<open>k\<close> matches \<open>0x212A\<close>
  (the Kelvin sign); any other character matches itself only. The patterns of the
  source are ASCII.
\<close>

definition case_specials :: "nat \<Rightarrow> nat list" where
  "case_specials l =
     (if l = 105 then [304, 305] else if l = 115 then [383] else if l = 107 then [8490] else [])"

definition case_variants :: "nat \<Rightarrow> nat list" where
  "case_variants c =
     (if 97 \<le> c \<and> c \<le> 122 then [c, c - 32] @ case_specials c
      else if 65 \<le> c \<and> c \<le> 90 then [c, c + 32] @ case_specials (c + 32)
      else [c])"

fun in_atom :: "bool \<Rightarrow> atom \<Rightarrow> nat \<Rightarrow> bool" where
  "in_atom ic (Lit c) x = (if ic then x \<in> set (case_variants c) else x = c)"
| "in_atom ic (Rng lo hi) x =
     (if ic then list_ex (\<lambda>c. x \<in> set (case_variants c)) [lo ..< Suc hi]
      else lo \<le> x \<and> x \<le> hi)"
| "in_atom ic Space x = is_space x"

declare in_atom.simps [simp del]

definition in_class :: "bool \<Rightarrow> atom list \<Rightarrow> nat \<Rightarrow> bool" where
  "in_class ic atoms x = list_ex (\<lambda>a. in_atom ic a x) atoms"

text \<open>
  The backtracking matcher, anchored at the head of the remaining text. \<open>pos\<close> is the
  index of that head in the whole text; the result is the span of group 1. A greedy
  repetition first tries to take one more character and gives it back only when the
  rest of the pattern fails.
\<close>

fun rx_match :: "bool \<Rightarrow> item list \<Rightarrow> ustring \<Rightarrow> nat \<Rightarrow> nat \<times> nat \<Rightarrow> (nat \<times> nat) option" where
  "rx_match ic [] s pos cap = Some cap"
| "rx_match ic (GrpOpen # ps) s pos cap = rx_match ic ps s pos (pos, snd cap)"
| "rx_match ic (GrpClose # ps) s pos cap = rx_match ic ps s pos (fst cap, pos)"
| "rx_match ic (Chr a # ps) [] pos cap = None"
| "rx_match ic (Chr a # ps) (x # xs) pos cap =
     (if in_class ic a x then rx_match ic ps xs (Suc pos) cap else None)"
| "rx_match ic (Rep1 a # ps) [] pos cap = None"
| "rx_match ic (Rep1 a # ps) (x # xs) pos cap =
     (if in_class ic a x
      then (case rx_match ic (Rep1 a # ps) xs (Suc pos) cap of
              Some r \<Rightarrow> Some r
            | None \<Rightarrow> rx_match ic ps xs (Suc pos) cap)
      else None)"

text \<open>\<open>re.search\<close>: the leftmost start position at which the pattern matches.\<close>

fun rx_search_at :: "bool \<Rightarrow> item list \<Rightarrow> ustring \<Rightarrow> nat \<Rightarrow> (nat \<times> nat) option" where
  "rx_search_at ic ps [] pos = rx_match ic ps [] pos (0, 0)"
| "rx_search_at ic ps (x # xs) pos =
     (case rx_match ic ps (x # xs) pos (0, 0) of
        Some cap \<Rightarrow> Some cap
      | None \<Rightarrow> rx_search_at ic ps xs (Suc pos))"

fun slice :: "ustring \<Rightarrow> nat \<times> nat \<Rightarrow> ustring" where
  "slice text (a, b) = take (b - a) (drop a text)"

text \<open>\<open>re.search(pattern, text)\<close> followed by \<open>.group(1)\<close>; \<open>None\<close> when there is no match.\<close>

fun re_search :: "regex \<Rightarrow> ustring \<Rightarrow> ustring option" where
  "re_search (Regex ic ps) text = map_option (slice text) (rx_search_at ic ps text 0)"

section \<open>Text enrichment\<close>

text \<open>
  The patterns of the source, in its order:
  \<^verbatim>\<open>(?i)vendor[:\s]+([A-Za-z0-9\s\-\_\.]+)\<close>,
  \<^verbatim>\<open>(?i)from\s+([A-Za-z0-9\s\-\_\.]+)\<close> and
  \<^verbatim>\<open>(?i)ordered\s+from\s+([A-Za-z0-9\s\-\_\.]+)\<close>.
\<close>

definition literal :: "string \<Rightarrow> item list" where
  "literal s = map (\<lambda>c. Chr [Lit c]) (str s)"

definition name_span :: "item list" where
  "name_span = [GrpOpen,
     Rep1 [Rng (cp CHR ''A'') (cp CHR ''Z''), Rng (cp CHR ''a'') (cp CHR ''z''),
           Rng (cp CHR ''0'') (cp CHR ''9''), Space,
           Lit (cp CHR ''-''), Lit (cp CHR ''_''), Lit (cp CHR ''.'')],
     GrpClose]"

definition pat_vendor :: regex where
  "pat_vendor = Regex True (literal ''vendor'' @ [Rep1 [Lit (cp CHR '':''), Space]] @ name_span)"

definition pat_from :: regex where
  "pat_from = Regex True (literal ''from'' @ [Rep1 [Space]] @ name_span)"

definition pat_ordered_from :: regex where
  "pat_ordered_from =
     Regex True (literal ''ordered'' @ [Rep1 [Space]] @ literal ''from'' @ [Rep1 [Space]] @ name_span)"

definition patterns :: "regex list" where
  "patterns = [pat_vendor, pat_from, pat_ordered_from]"

text \<open>
  The loop over the patterns: the first pattern that matches returns its group 1,
  stripped. \<open>re.search\<close> does not raise on a \<open>str\<close>, so the \<open>except\<close> branch of the
  source is not a branch of the model.
\<close>

fun first_match :: "regex list \<Rightarrow> ustring \<Rightarrow> ustring option" where
  "first_match [] text = None"
| "first_match (p # ps) text =
     (case re_search p text of
        Some g \<Rightarrow> Some (strip g)
      | None \<Rightarrow> first_match ps text)"

definition extract_vendor_name :: "ustring \<Rightarrow> ustring option" where
  "extract_vendor_name text = first_match patterns text"

text \<open>
  \<open>TextBlob(text).sentiment.polarity\<close> is a parameter: a function that returns the
  polarity, or \<open>None\<close> when the library raises.
\<close>

type_synonym sentiment_model = "ustring \<Rightarrow> real option"

text \<open>
  The lines written to the log, one constructor for each call of the logger in the
  functions modelled; the text of the exception in a message is left out.
\<close>

datatype log_event =
    Sentiment_error
  | Process_error string
  | Scrape_start string
  | Inserted string string
  | Post_error
  | Scrape_error string
  | Update_start
  | Updated string
  | Update_error string
  | Update_failed

definition extract_sentiment :: "sentiment_model \<Rightarrow> ustring \<Rightarrow> real \<times> log_event list" where
  "extract_sentiment polarity text =
     (case polarity text of
        Some v \<Rightarrow> (v, [])
      | None \<Rightarrow> (0, [Sentiment_error]))"

section \<open>Post normalizer\<close>

text \<open>
  The attributes of a submission that \<open>process_post\<close> reads. \<open>None\<close> in an optional
  field is Python's \<open>None\<close>: a deleted author, or an attribute that is not there.
\<close>

record raw_post =
  rp_id :: string
  rp_subreddit :: "string option"
  rp_title :: "ustring option"
  rp_selftext :: ustring
  rp_author :: "string option"
  rp_permalink :: string
  rp_created_utc :: "real option"
  rp_score :: int
  rp_upvote_ratio :: real
  rp_num_comments :: int

record stored_post =
  reddit_id :: string
  subreddit :: string
  title :: ustring
  content :: ustring
  author :: string
  url :: string
  created_utc :: real
  score :: int
  upvote_ratio :: real
  num_comments :: int
  post_type :: string
  sentiment_score :: real
  extracted_vendor_name :: "ustring option"
  processed :: bool

text \<open>\<open>str(post.author)\<close>: the name of the author, and \<open>str(None)\<close> for a deleted one.\<close>

definition str_of_author :: "string option \<Rightarrow> string" where
  "str_of_author a = (case a of None \<Rightarrow> ''None'' | Some name \<Rightarrow> name)"

text \<open>
  \<open>datetime.fromtimestamp(t, tz=timezone.utc)\<close>: raises on \<open>None\<close> and outside the
  years 1 to 9999; the result is kept as seconds since the epoch, in UTC.
\<close>

definition fromtimestamp_utc :: "real option \<Rightarrow> real option" where
  "fromtimestamp_utc t =
     (case t of
        None \<Rightarrow> None
      | Some secs \<Rightarrow> if - 62135596800 \<le> secs \<and> secs < 253402300800 then Some secs else None)"

text \<open>Python's \<open>word in text\<close> on strings.\<close>

definition startswith :: "'a list \<Rightarrow> 'a list \<Rightarrow> bool" where
  "startswith s w = (take (length w) s = w)"

fun str_contains :: "'a list \<Rightarrow> 'a list \<Rightarrow> bool" where
  "str_contains w [] = (w = [])"
| "str_contains w (x # xs) = (startswith (x # xs) w \<or> str_contains w xs)"

definition classify_title :: "lower_table \<Rightarrow> ustring \<Rightarrow> string" where
  "classify_title table t =
     (if list_ex (\<lambda>word. str_contains word (lower table t)) [str ''review'', str ''experience'']
      then ''review'' else ''discussion'')"

text \<open>
  The body of the \<open>try\<close> in \<open>process_post\<close>: \<open>None\<close> when building the dictionary
  raises (\<open>post.subreddit\<close> or \<open>post.title\<close> is \<open>None\<close>, or the timestamp cannot be
  converted).
\<close>

definition build_record ::
  "sentiment_model \<Rightarrow> lower_table \<Rightarrow> raw_post \<Rightarrow> (stored_post \<times> log_event list) option" where
  "build_record polarity table post =
     (case rp_subreddit post of
        None \<Rightarrow> None
      | Some display_name \<Rightarrow>
     (case fromtimestamp_utc (rp_created_utc post) of
        None \<Rightarrow> None
      | Some created \<Rightarrow>
     (case rp_title post of
        None \<Rightarrow> None
      | Some t \<Rightarrow>
          let text = t @ str '' '' @ rp_selftext post;
              (sentiment, logged) = extract_sentiment polarity text
          in Some (\<lparr> reddit_id = rp_id post,
                      subreddit = display_name,
                      title = t,
                      content = rp_selftext post,
                      author = str_of_author (rp_author post),
                      url = ''https://reddit.com'' @ rp_permalink post,
                      created_utc = created,
                      score = rp_score post,
                      upvote_ratio = rp_upvote_ratio post,
                      num_comments = rp_num_comments post,
                      post_type = classify_title table t,
                      sentiment_score = sentiment,
                      extracted_vendor_name = extract_vendor_name text,
                      processed = False \<rparr>, logged))))"

definition process_post ::
  "sentiment_model \<Rightarrow> lower_table \<Rightarrow> raw_post \<Rightarrow> stored_post option \<times> log_event list" where
  "process_post polarity table post =
     (case build_record polarity table post of
        Some (post_data, logged) \<Rightarrow> (Some post_data, logged)
      | None \<Rightarrow> (None, [Process_error (rp_id post)]))"

section \<open>Ingestion engine\<close>

text \<open>
  The state of a run: the rows of the table \<open>reddit_posts\<close> (only the columns the
  program writes) and the lines logged so far. A call of the table may raise; then the
  table is unchanged. How the table behaves while one post is handled is an input.
\<close>

record state =
  reddit_posts :: "stored_post list"
  log_lines :: "log_event list"

datatype fault = No_fault | Select_fails | Insert_fails

definition select_by_reddit_id :: "string \<Rightarrow> stored_post list \<Rightarrow> stored_post list" where
  "select_by_reddit_id rid rows = filter (\<lambda>r. reddit_id r = rid) rows"

definition logs :: "log_event list \<Rightarrow> state \<Rightarrow> state" where
  "logs events st = st\<lparr>log_lines := log_lines st @ events\<rparr>"

text \<open>The body of the \<open>for\<close> loop of \<open>scrape_subreddit_data\<close>, for one post.\<close>

definition scrape_post ::
  "sentiment_model \<Rightarrow> lower_table \<Rightarrow> string \<Rightarrow> raw_post \<Rightarrow> fault \<Rightarrow> state \<Rightarrow> state" where
  "scrape_post polarity table subreddit_name post f st =
     (if f = Select_fails then logs [Post_error] st
      else if select_by_reddit_id (rp_id post) (reddit_posts st) \<noteq> [] then st
      else (case process_post polarity table post of
              (None, logged) \<Rightarrow> logs logged st
            | (Some post_data, logged) \<Rightarrow>
                if f = Insert_fails then logs (logged @ [Post_error]) st
                else logs (logged @ [Inserted (rp_id post) subreddit_name])
                       (st\<lparr>reddit_posts := reddit_posts st @ [post_data]\<rparr>)))"

fun scrape_posts ::
  "sentiment_model \<Rightarrow> lower_table \<Rightarrow> string \<Rightarrow> (raw_post \<times> fault) list \<Rightarrow> state \<Rightarrow> state" where
  "scrape_posts polarity table subreddit_name [] st = st"
| "scrape_posts polarity table subreddit_name ((post, f) # rest) st =
     scrape_posts polarity table subreddit_name rest
       (scrape_post polarity table subreddit_name post f st)"

text \<open>
  \<open>fetched\<close> is what \<open>subreddit.new(limit=limit)\<close> yields, each post with the behaviour
  of the table while it is handled; \<open>listing_fails\<close> says that the listing raised after
  its last post, which ends the scan in the outer \<open>except\<close>.
\<close>

definition scrape_subreddit_data ::
  "sentiment_model \<Rightarrow> lower_table \<Rightarrow> string \<Rightarrow> (raw_post \<times> fault) list \<Rightarrow> bool \<Rightarrow> state \<Rightarrow> state" where
  "scrape_subreddit_data polarity table subreddit_name fetched listing_fails st =
     (let st1 = scrape_posts polarity table subreddit_name fetched
                  (logs [Scrape_start subreddit_name] st)
      in if listing_fails then logs [Scrape_error subreddit_name] st1 else st1)"

text \<open>
  The refresh pass. \<open>live rid\<close> is what \<open>reddit.submission(id=rid)\<close> reports
  (score, number of comments, upvote ratio), \<open>None\<close> when reading it raises;
  \<open>update_fails i\<close> says that the update of the \<open>i\<close>-th row read raises.
\<close>

type_synonym live_source = "string \<Rightarrow> (int \<times> int \<times> real) option"

definition update_by_reddit_id :: "string \<Rightarrow> int \<times> int \<times> real \<Rightarrow> stored_post list \<Rightarrow> stored_post list" where
  "update_by_reddit_id rid counters rows =
     (case counters of (s, n, u) \<Rightarrow>
        map (\<lambda>r. if reddit_id r = rid then r\<lparr>score := s, num_comments := n, upvote_ratio := u\<rparr> else r) rows)"

definition update_post :: "live_source \<Rightarrow> bool \<Rightarrow> stored_post \<Rightarrow> state \<Rightarrow> state" where
  "update_post live fails post_data st =
     (case live (reddit_id post_data) of
        None \<Rightarrow> logs [Update_error (reddit_id post_data)] st
      | Some counters \<Rightarrow>
          if fails then logs [Update_error (reddit_id post_data)] st
          else logs [Updated (reddit_id post_data)]
                 (st\<lparr>reddit_posts := update_by_reddit_id (reddit_id post_data) counters (reddit_posts st)\<rparr>))"

fun update_posts :: "live_source \<Rightarrow> (nat \<Rightarrow> bool) \<Rightarrow> nat \<Rightarrow> stored_post list \<Rightarrow> state \<Rightarrow> state" where
  "update_posts live update_fails i [] st = st"
| "update_posts live update_fails i (post_data # rest) st =
     update_posts live update_fails (Suc i) rest (update_post live (update_fails i) post_data st)"

definition update_existing_posts :: "live_source \<Rightarrow> bool \<Rightarrow> (nat \<Rightarrow> bool) \<Rightarrow> state \<Rightarrow> state" where
  "update_existing_posts live select_fails update_fails st =
     (let st1 = logs [Update_start] st
      in if select_fails then logs [Update_failed] st1
         else update_posts live update_fails 0 (reddit_posts st1) st1)"

section \<open>Start-up check\<close>

datatype error = EnvironmentError string

definition required_vars :: "string list" where
  "required_vars = [''SUPABASE_URL'', ''SUPABASE_SERVICE_ROLE_KEY'', ''REDDIT_CLIENT_ID'',
     ''REDDIT_CLIENT_SECRET'']"

fun join :: "string \<Rightarrow> string list \<Rightarrow> string" where
  "join sep [] = []"
| "join sep [x] = x"
| "join sep (x # y # ys) = x @ sep @ join sep (y # ys)"

text \<open>\<open>not os.getenv(var)\<close>: the variable is unset, or set to the empty string.\<close>

definition not_set :: "(string \<Rightarrow> string option) \<Rightarrow> string \<Rightarrow> bool" where
  "not_set getenv var = (case getenv var of None \<Rightarrow> True | Some v \<Rightarrow> v = [])"

definition check_environment :: "(string \<Rightarrow> string option) \<Rightarrow> error + unit" where
  "check_environment getenv =
     (let missing_vars = filter (not_set getenv) required_vars
      in if missing_vars \<noteq> []
         then Inl (EnvironmentError (''Missing required environment variables: '' @ join '', '' missing_vars))
         else Inr ())"

section \<open>What a match is\<close>

text \<open>
  The words a pattern accepts, independent of the search strategy: a literal or class
  takes one character, a repetition takes a non-empty run of characters of its class,
  and the parentheses of a group take nothing.
\<close>

fun accepts :: "bool \<Rightarrow> item list \<Rightarrow> ustring \<Rightarrow> bool" where
  "accepts ic [] w = (w = [])"
| "accepts ic (GrpOpen # ps) w = accepts ic ps w"
| "accepts ic (GrpClose # ps) w = accepts ic ps w"
| "accepts ic (Chr a # ps) w = (\<exists>x v. w = x # v \<and> in_class ic a x \<and> accepts ic ps v)"
| "accepts ic (Rep1 a # ps) w =
     (\<exists>u v. w = u @ v \<and> u \<noteq> [] \<and> list_all (in_class ic a) u \<and> accepts ic ps v)"

text \<open>A pattern has a match in a text when some substring of the text is accepted.\<close>

fun has_match :: "regex \<Rightarrow> ustring \<Rightarrow> bool" where
  "has_match (Regex ic ps) text = (\<exists>pre w rest. text = pre @ w @ rest \<and> accepts ic ps w)"

text \<open>
  The same with the span of group 1: \<open>pos\<close> is the index at which the word starts, and
  the parentheses record the index at which they stand.
\<close>

fun accepts_span :: "bool \<Rightarrow> item list \<Rightarrow> ustring \<Rightarrow> nat \<Rightarrow> nat \<times> nat \<Rightarrow> nat \<times> nat \<Rightarrow> bool" where
  "accepts_span ic [] w pos cap grp = (w = [] \<and> grp = cap)"
| "accepts_span ic (GrpOpen # ps) w pos cap grp = accepts_span ic ps w pos (pos, snd cap) grp"
| "accepts_span ic (GrpClose # ps) w pos cap grp = accepts_span ic ps w pos (fst cap, pos) grp"
| "accepts_span ic (Chr a # ps) w pos cap grp =
     (\<exists>x v. w = x # v \<and> in_class ic a x \<and> accepts_span ic ps v (Suc pos) cap grp)"
| "accepts_span ic (Rep1 a # ps) w pos cap grp =
     (\<exists>u v. w = u @ v \<and> u \<noteq> [] \<and> list_all (in_class ic a) u \<and>
        accepts_span ic ps v (pos + length u) cap grp)"

text \<open>
  The code points of a name span: ASCII letters and digits, white space, hyphen,
  underscore and period, and the four code points that \<open>(?i)\<close> adds to the letters.
  And the shape of a text in which a marker word, in any mix of upper and lower
  case, is followed by separators and a name.
\<close>

definition name_char :: "nat \<Rightarrow> bool" where
  "name_char c =
     ((65 \<le> c \<and> c \<le> 90) \<or> (97 \<le> c \<and> c \<le> 122) \<or> (48 \<le> c \<and> c \<le> 57) \<or>
      is_space c \<or> c = cp CHR ''-'' \<or> c = cp CHR ''_'' \<or> c = cp CHR ''.'' \<or>
      c = 304 \<or> c = 305 \<or> c = 383 \<or> c = 8490)"

definition marker_then_name :: "string \<Rightarrow> (nat \<Rightarrow> bool) \<Rightarrow> ustring \<Rightarrow> bool" where
  "marker_then_name marker separator text =
     (\<exists>pre m sep name rest. text = pre @ m @ sep @ name @ rest \<and>
        map ascii_lower m = str marker \<and>
        sep \<noteq> [] \<and> list_all separator sep \<and> name \<noteq> [] \<and> list_all name_char name)"

definition ordered_from_then_name :: "ustring \<Rightarrow> bool" where
  "ordered_from_then_name text =
     (\<exists>pre m1 sep1 m2 sep2 name rest. text = pre @ m1 @ sep1 @ m2 @ sep2 @ name @ rest \<and>
        map ascii_lower m1 = str ''ordered'' \<and> sep1 \<noteq> [] \<and> list_all is_space sep1 \<and>
        map ascii_lower m2 = str ''from'' \<and> sep2 \<noteq> [] \<and> list_all is_space sep2 \<and>
        name \<noteq> [] \<and> list_all name_char name)"

text \<open>
  \<open>g\<close> is a name in the text that follows a marker word and separators.
\<close>

definition name_after_marker :: "string \<Rightarrow> (nat \<Rightarrow> bool) \<Rightarrow> ustring \<Rightarrow> ustring \<Rightarrow> bool" where
  "name_after_marker marker separator text g =
     (\<exists>pre m sep rest. text = pre @ m @ sep @ g @ rest \<and> map ascii_lower m = str marker \<and>
        sep \<noteq> [] \<and> list_all separator sep \<and> g \<noteq> [] \<and> list_all name_char g)"

text \<open>
  A group with the white space at its two ends removed: the result lies in the group
  between two runs of white space and neither starts nor ends with white space.
\<close>

definition trimmed_of :: "ustring \<Rightarrow> ustring \<Rightarrow> bool" where
  "trimmed_of v g =
     ((\<exists>l r. g = l @ v @ r \<and> list_all is_space l \<and> list_all is_space r) \<and>
      (v = [] \<or> (\<not> is_space (hd v) \<and> \<not> is_space (last v))))"

section \<open>Notions used to state the properties\<close>

text \<open>\<open>w\<close> occurs in \<open>s\<close> as a contiguous substring.\<close>

definition substring_of :: "'a list \<Rightarrow> 'a list \<Rightarrow> bool" where
  "substring_of w s = (\<exists>pre suf. s = pre @ w @ suf)"

text \<open>
  An occurrence of a word in a text in any mix of upper and lower case of the ASCII
  letters.
\<close>

definition occurs_ignoring_case :: "string \<Rightarrow> ustring \<Rightarrow> bool" where
  "occurs_ignoring_case word text =
     (\<exists>pre m suf. text = pre @ m @ suf \<and> map ascii_lower m = str word)"

text \<open>
  What the program relies on from the Unicode database: at a position of a text that
  holds a code point outside ASCII, other than the dotted capital I and the Kelvin
  sign, the lower-case image is not empty and holds no ASCII code point.
\<close>

definition lower_table_ok :: "lower_table \<Rightarrow> bool" where
  "lower_table_ok table =
     (\<forall>whole i. i < length whole \<and> 128 \<le> whole ! i \<and> whole ! i \<noteq> 304 \<and> whole ! i \<noteq> 8490 \<longrightarrow>
        table whole i \<noteq> [] \<and> list_all (\<lambda>c. 128 \<le> c) (table whole i))"

text \<open>
  What the program relies on from the sentiment library: a polarity, when it is
  returned, lies between \<open>-1\<close> and \<open>1\<close>, and the empty text has polarity \<open>0\<close>.
\<close>

definition polarity_in_range :: "sentiment_model \<Rightarrow> bool" where
  "polarity_in_range polarity =
     ((\<forall>text v. polarity text = Some v \<longrightarrow> - 1 \<le> v \<and> v \<le> 1) \<and>
      (polarity [] = Some 0 \<or> polarity [] = None))"

text \<open>
  A row without its three counters, and a row refreshed from the live source when its
  identifier is in a given set.
\<close>

definition without_counters :: "stored_post \<Rightarrow> stored_post" where
  "without_counters r = r\<lparr>score := 0, num_comments := 0, upvote_ratio := 0\<rparr>"

definition refreshed :: "live_source \<Rightarrow> string set \<Rightarrow> stored_post \<Rightarrow> stored_post" where
  "refreshed live ids r =
     (case live (reddit_id r) of
        None \<Rightarrow> r
      | Some (s, n, u) \<Rightarrow>
          if reddit_id r \<in> ids then r\<lparr>score := s, num_comments := n, upvote_ratio := u\<rparr> else r)"

section \<open>Evaluating the character tests\<close>

text \<open>
  The test of a code point against a range under \<open>(?i)\<close> enumerates the range. The
  equations below replace the enumeration by comparisons.
\<close>

lemma in_variants_letter:
  assumes "97 \<le> c" "c \<le> 122"
  shows "x \<in> set (case_variants c) \<longleftrightarrow> x = c \<or> x + 32 = c \<or> x \<in> set (case_specials c)"
  using assms by (auto simp: case_variants_def)

lemma in_atom_Lit_ic: "in_atom True (Lit c) x \<longleftrightarrow> x \<in> set (case_variants c)"
  by (simp add: in_atom.simps)

lemma in_atom_Space: "in_atom ic Space x \<longleftrightarrow> is_space x"
  by (simp add: in_atom.simps)

lemma in_atom_Rng_ic:
  "in_atom True (Rng lo hi) x \<longleftrightarrow> (\<exists>c. lo \<le> c \<and> c \<le> hi \<and> x \<in> set (case_variants c))"
  by (auto simp: in_atom.simps list_ex_iff)

lemma in_atom_upper_ic:
  "in_atom True (Rng 65 90) x \<longleftrightarrow>
     (65 \<le> x \<and> x \<le> 90) \<or> (97 \<le> x \<and> x \<le> 122) \<or> x = 304 \<or> x = 305 \<or> x = 383 \<or> x = 8490"
  (is "?L \<longleftrightarrow> ?R")
proof
  assume ?L
  then obtain c where "65 \<le> c" "c \<le> 90" "x \<in> set (case_variants c)"
    unfolding in_atom_Rng_ic by blast
  then show ?R
    by (auto simp: case_variants_def case_specials_def split: if_splits)
next
  assume r: ?R
  have "\<exists>c. 65 \<le> c \<and> c \<le> 90 \<and> x \<in> set (case_variants c)"
  proof -
    consider "65 \<le> x \<and> x \<le> 90" | "97 \<le> x \<and> x \<le> 122" | "x = 304 \<or> x = 305" | "x = 383" | "x = 8490"
      using r by blast
    then show ?thesis
    proof cases
      case 1
      then have "x \<in> set (case_variants x)" by (simp add: case_variants_def)
      with 1 show ?thesis by blast
    next
      case 2
      then have "x \<in> set (case_variants (x - 32))" "65 \<le> x - 32" "x - 32 \<le> 90"
        by (auto simp: case_variants_def)
      then show ?thesis by blast
    next
      case 3
      then have "x \<in> set (case_variants 73)" by (auto simp: case_variants_def case_specials_def)
      then show ?thesis by (intro exI[of _ 73]) simp
    next
      case 4
      then have "x \<in> set (case_variants 83)" by (auto simp: case_variants_def case_specials_def)
      then show ?thesis by (intro exI[of _ 83]) simp
    next
      case 5
      then have "x \<in> set (case_variants 75)" by (auto simp: case_variants_def case_specials_def)
      then show ?thesis by (intro exI[of _ 75]) simp
    qed
  qed
  then show ?L unfolding in_atom_Rng_ic .
qed

lemma in_atom_lower_ic:
  "in_atom True (Rng 97 122) x \<longleftrightarrow>
     (65 \<le> x \<and> x \<le> 90) \<or> (97 \<le> x \<and> x \<le> 122) \<or> x = 304 \<or> x = 305 \<or> x = 383 \<or> x = 8490"
  (is "?L \<longleftrightarrow> ?R")
proof
  assume ?L
  then obtain c where "97 \<le> c" "c \<le> 122" "x \<in> set (case_variants c)"
    unfolding in_atom_Rng_ic by blast
  then show ?R
    by (auto simp: case_variants_def case_specials_def split: if_splits)
next
  assume r: ?R
  have "\<exists>c. 97 \<le> c \<and> c \<le> 122 \<and> x \<in> set (case_variants c)"
  proof -
    consider "65 \<le> x \<and> x \<le> 90" | "97 \<le> x \<and> x \<le> 122" | "x = 304 \<or> x = 305" | "x = 383" | "x = 8490"
      using r by blast
    then show ?thesis
    proof cases
      case 1
      then have "x \<in> set (case_variants (x + 32))" "97 \<le> x + 32" "x + 32 \<le> 122"
        by (auto simp: case_variants_def)
      then show ?thesis by blast
    next
      case 2
      then have "x \<in> set (case_variants x)" by (simp add: case_variants_def)
      with 2 show ?thesis by blast
    next
      case 3
      then have "x \<in> set (case_variants 105)" by (auto simp: case_variants_def case_specials_def)
      then show ?thesis by (intro exI[of _ 105]) simp
    next
      case 4
      then have "x \<in> set (case_variants 115)" by (auto simp: case_variants_def case_specials_def)
      then show ?thesis by (intro exI[of _ 115]) simp
    next
      case 5
      then have "x \<in> set (case_variants 107)" by (auto simp: case_variants_def case_specials_def)
      then show ?thesis by (intro exI[of _ 107]) simp
    qed
  qed
  then show ?L unfolding in_atom_Rng_ic .
qed

lemma in_atom_digit_ic:
  "in_atom True (Rng 48 57) x \<longleftrightarrow> 48 \<le> x \<and> x \<le> 57"
proof
  assume "in_atom True (Rng 48 57) x"
  then obtain c where "48 \<le> c" "c \<le> 57" "x \<in> set (case_variants c)"
    unfolding in_atom_Rng_ic by blast
  then show "48 \<le> x \<and> x \<le> 57" by (auto simp: case_variants_def)
next
  assume r: "48 \<le> x \<and> x \<le> 57"
  then have "x \<in> set (case_variants x)" by (simp add: case_variants_def)
  with r show "in_atom True (Rng 48 57) x" unfolding in_atom_Rng_ic by blast
qed

lemma cp_values:
  "cp CHR ''A'' = 65" "cp CHR ''Z'' = 90" "cp CHR ''a'' = 97" "cp CHR ''z'' = 122"
  "cp CHR ''0'' = 48" "cp CHR ''9'' = 57" "cp CHR ''-'' = 45" "cp CHR ''_'' = 95"
  "cp CHR ''.'' = 46" "cp CHR '':'' = 58"
  by (simp_all add: cp_def)

lemmas char_eval = in_class_def in_atom_Lit_ic in_atom_Space in_atom_upper_ic in_atom_lower_ic
  in_atom_digit_ic case_variants_def case_specials_def is_space_def ascii_lower_def cp_def str_def

lemmas vendor_eval = extract_vendor_name_def patterns_def pat_vendor_def pat_from_def
  pat_ordered_from_def literal_def name_span_def strip_def lstrip_def rstrip_def char_eval

section \<open>The matcher finds a match exactly when one exists\<close>

text \<open>
  The backtracking matcher succeeds at a position exactly when a prefix of the
  remaining text is accepted by the pattern, and the search succeeds exactly when some
  substring is.
\<close>

lemma accepts_Rep1_Cons:
  assumes "in_class ic a x"
  shows "(\<exists>w r. x # xs = w @ r \<and> accepts ic (Rep1 a # ps) w) \<longleftrightarrow>
          (\<exists>w r. xs = w @ r \<and> accepts ic (Rep1 a # ps) w) \<or> (\<exists>w r. xs = w @ r \<and> accepts ic ps w)"
  (is "?L \<longleftrightarrow> ?A \<or> ?B")
proof
  assume ?L
  then obtain w r u v where w: "x # xs = w @ r" "w = u @ v" "u \<noteq> []"
      "list_all (in_class ic a) u" "accepts ic ps v"
    by auto
  then obtain u' where u: "u = x # u'" by (cases u) auto
  show "?A \<or> ?B"
  proof (cases "u' = []")
    case True
    with w u have "xs = v @ r" by simp
    with w show ?thesis by blast
  next
    case False
    with w u have "xs = (u' @ v) @ r" "list_all (in_class ic a) u'" by simp_all
    with False w have "accepts ic (Rep1 a # ps) (u' @ v)" by auto
    with \<open>xs = (u' @ v) @ r\<close> show ?thesis by blast
  qed
next
  assume "?A \<or> ?B"
  then show ?L
  proof
    assume ?A
    then obtain w r u v where h: "xs = w @ r" "w = u @ v" "u \<noteq> []"
        "list_all (in_class ic a) u" "accepts ic ps v"
      by auto
    have "accepts ic (Rep1 a # ps) ((x # u) @ v)"
      unfolding accepts.simps
      by (rule exI[of _ "x # u"], rule exI[of _ v]) (use h assms in simp)
    moreover have "x # xs = ((x # u) @ v) @ r" using h by simp
    ultimately show ?L by blast
  next
    assume ?B
    then obtain w r where h: "xs = w @ r" "accepts ic ps w" by auto
    have "accepts ic (Rep1 a # ps) ([x] @ w)"
      unfolding accepts.simps
      by (rule exI[of _ "[x]"], rule exI[of _ w]) (use h assms in simp)
    moreover have "x # xs = ([x] @ w) @ r" using h by simp
    ultimately show ?L by blast
  qed
qed

lemma accepts_Chr_Cons:
  "(\<exists>w r. x # xs = w @ r \<and> accepts ic (Chr a # ps) w) \<longleftrightarrow>
     in_class ic a x \<and> (\<exists>w r. xs = w @ r \<and> accepts ic ps w)"
  by (auto simp: Cons_eq_append_conv)

lemma rx_match_iff:
  "rx_match ic ps s pos cap \<noteq> None \<longleftrightarrow> (\<exists>w r. s = w @ r \<and> accepts ic ps w)"
proof (induction ic ps s pos cap rule: rx_match.induct)
  case (1 ic s pos cap)
  show ?case by simp
next
  case (2 ic ps s pos cap)
  then show ?case by (simp only: rx_match.simps accepts.simps)
next
  case (3 ic ps s pos cap)
  then show ?case by (simp only: rx_match.simps accepts.simps)
next
  case (4 ic a ps pos cap)
  show ?case by simp
next
  case (5 ic a ps x xs pos cap)
  show ?case
  proof (cases "in_class ic a x")
    case True
    then have "rx_match ic (Chr a # ps) (x # xs) pos cap = rx_match ic ps xs (Suc pos) cap"
      by simp
    with 5[OF True] True show ?thesis
      by (simp only: accepts_Chr_Cons simp_thms)
  next
    case False
    then have "rx_match ic (Chr a # ps) (x # xs) pos cap = None" by simp
    with False show ?thesis
      by (simp only: accepts_Chr_Cons simp_thms not_False_eq_True)
  qed
next
  case (6 ic a ps pos cap)
  show ?case by simp
next
  case (7 ic a ps x xs pos cap)
  show ?case
  proof (cases "in_class ic a x")
    case False
    then have "rx_match ic (Rep1 a # ps) (x # xs) pos cap = None" by simp
    moreover have "\<not> (\<exists>w r. x # xs = w @ r \<and> accepts ic (Rep1 a # ps) w)"
    proof
      assume "\<exists>w r. x # xs = w @ r \<and> accepts ic (Rep1 a # ps) w"
      then obtain w r u v where "x # xs = w @ r" "w = u @ v" "u \<noteq> []" "list_all (in_class ic a) u"
        by auto
      then have "in_class ic a x" by (cases u) auto
      with False show False by simp
    qed
    ultimately show ?thesis by simp
  next
    case True
    note rhs = accepts_Rep1_Cons[OF True, of xs ps]
    show ?thesis
    proof (cases "rx_match ic (Rep1 a # ps) xs (Suc pos) cap")
      case None
      have ih1: "(rx_match ic (Rep1 a # ps) xs (Suc pos) cap \<noteq> None) =
          (\<exists>w r. xs = w @ r \<and> accepts ic (Rep1 a # ps) w)"
        by (rule 7(1)[OF True])
      have ih2: "(rx_match ic ps xs (Suc pos) cap \<noteq> None) = (\<exists>w r. xs = w @ r \<and> accepts ic ps w)"
        by (rule 7(2)[OF True None])
      from ih1 None have notA: "\<not> (\<exists>w r. xs = w @ r \<and> accepts ic (Rep1 a # ps) w)"
        by (simp only: simp_thms)
      have eq: "rx_match ic (Rep1 a # ps) (x # xs) pos cap = rx_match ic ps xs (Suc pos) cap"
        using True None by simp
      show ?thesis
        unfolding eq ih2 rhs using notA by (simp only: simp_thms)
    next
      case (Some r)
      have ih1: "(rx_match ic (Rep1 a # ps) xs (Suc pos) cap \<noteq> None) =
          (\<exists>w r. xs = w @ r \<and> accepts ic (Rep1 a # ps) w)"
        by (rule 7(1)[OF True])
      from ih1 Some have isA: "\<exists>w r. xs = w @ r \<and> accepts ic (Rep1 a # ps) w"
        by (simp only: option.distinct simp_thms not_False_eq_True)
      have ne: "rx_match ic (Rep1 a # ps) (x # xs) pos cap \<noteq> None"
        using True Some by simp
      show ?thesis
        unfolding rhs using ne isA by (simp only: simp_thms)
    qed
  qed
qed

lemma substring_Cons:
  "(\<exists>pre w r. x # xs = pre @ w @ r \<and> P w) \<longleftrightarrow>
     (\<exists>w r. x # xs = w @ r \<and> P w) \<or> (\<exists>pre w r. xs = pre @ w @ r \<and> P w)"
  (is "?L \<longleftrightarrow> ?A \<or> ?B")
proof
  assume ?L
  then obtain pre w r where h: "x # xs = pre @ w @ r" "P w" by blast
  show "?A \<or> ?B"
  proof (cases pre)
    case Nil
    with h have "x # xs = w @ r" by simp
    with h show ?thesis by blast
  next
    case (Cons y pre')
    with h have "xs = pre' @ w @ r" by simp
    with h show ?thesis by blast
  qed
next
  assume "?A \<or> ?B"
  then show ?L
  proof
    assume ?A
    then obtain w r where "x # xs = [] @ w @ r" "P w" by auto
    then show ?L by blast
  next
    assume ?B
    then obtain pre w r where "xs = pre @ w @ r" "P w" by auto
    then have "x # xs = (x # pre) @ w @ r" "P w" by simp_all
    then show ?L by blast
  qed
qed

lemma rx_search_at_iff:
  "rx_search_at ic ps s pos \<noteq> None \<longleftrightarrow> (\<exists>pre w r. s = pre @ w @ r \<and> accepts ic ps w)"
proof (induction s arbitrary: pos)
  case Nil
  have "rx_search_at ic ps [] pos \<noteq> None \<longleftrightarrow> (\<exists>w r. [] = w @ r \<and> accepts ic ps w)"
    using rx_match_iff[of ic ps "[]" pos "(0,0)"] by (simp only: rx_search_at.simps)
  then show ?case by simp
next
  case (Cons x xs)
  have step: "rx_search_at ic ps (x # xs) pos \<noteq> None \<longleftrightarrow>
      rx_match ic ps (x # xs) pos (0, 0) \<noteq> None \<or> rx_search_at ic ps xs (Suc pos) \<noteq> None"
    by (cases "rx_match ic ps (x # xs) pos (0, 0)") simp_all
  show ?case
    unfolding step Cons.IH rx_match_iff substring_Cons[of x xs "accepts ic ps"] ..
qed

lemma re_search_iff: "re_search p text \<noteq> None \<longleftrightarrow> has_match p text"
proof (cases p)
  case (Regex ic ps)
  have "re_search p text \<noteq> None \<longleftrightarrow> rx_search_at ic ps text 0 \<noteq> None"
    using Regex by simp
  also have "\<dots> \<longleftrightarrow> (\<exists>pre w r. text = pre @ w @ r \<and> accepts ic ps w)"
    by (rule rx_search_at_iff)
  also have "\<dots> \<longleftrightarrow> has_match p text"
    using Regex by simp
  finally show ?thesis .
qed

lemma accepts_append:
  "accepts ic (ps @ qs) w \<longleftrightarrow> (\<exists>u v. w = u @ v \<and> accepts ic ps u \<and> accepts ic qs v)"
proof (induction ps arbitrary: w)
  case Nil
  show ?case by simp
next
  case (Cons p ps)
  show ?case
  proof (cases p)
    case (Chr a)
    show ?thesis
      unfolding Chr append_Cons accepts.simps Cons.IH
    proof
      assume "\<exists>x v. w = x # v \<and> in_class ic a x \<and> (\<exists>u va. v = u @ va \<and> accepts ic ps u \<and> accepts ic qs va)"
      then obtain x u va where h: "w = x # u @ va" "in_class ic a x" "accepts ic ps u" "accepts ic qs va"
        by blast
      then have "w = (x # u) @ va" "\<exists>y v. x # u = y # v \<and> in_class ic a y \<and> accepts ic ps v"
        by simp_all
      with h show "\<exists>u v. w = u @ v \<and> (\<exists>x va. u = x # va \<and> in_class ic a x \<and> accepts ic ps va) \<and> accepts ic qs v"
        by blast
    next
      assume "\<exists>u v. w = u @ v \<and> (\<exists>x va. u = x # va \<and> in_class ic a x \<and> accepts ic ps va) \<and> accepts ic qs v"
      then obtain x va v where h: "w = (x # va) @ v" "in_class ic a x" "accepts ic ps va" "accepts ic qs v"
        by blast
      then have "w = x # (va @ v)" by simp
      with h show "\<exists>x v. w = x # v \<and> in_class ic a x \<and> (\<exists>u va. v = u @ va \<and> accepts ic ps u \<and> accepts ic qs va)"
        by blast
    qed
  next
    case (Rep1 a)
    show ?thesis
      unfolding Rep1 append_Cons accepts.simps Cons.IH
      by (metis append.assoc)
  next
    case GrpOpen
    show ?thesis unfolding GrpOpen append_Cons accepts.simps Cons.IH ..
  next
    case GrpClose
    show ?thesis unfolding GrpClose append_Cons accepts.simps Cons.IH ..
  qed
qed

section \<open>The three patterns, declaratively\<close>

text \<open>
  Each pattern is a marker word matched without regard to case, a run of separators
  and a name span; the third pattern is the word \<open>ordered\<close> and white space in front
  of the second.
\<close>

text \<open>A lower-case letter other than \<open>i\<close>, \<open>s\<close> and \<open>k\<close> matches its two cases and nothing else.\<close>

lemma in_variants_plain:
  assumes "97 \<le> c" "c \<le> 122" "c \<noteq> 105" "c \<noteq> 115" "c \<noteq> 107"
  shows "x \<in> set (case_variants c) \<longleftrightarrow> ascii_lower x = c"
  using assms by (auto simp: case_variants_def case_specials_def ascii_lower_def)

lemma accepts_literal_plain:
  assumes "list_all (\<lambda>c. 97 \<le> c \<and> c \<le> 122 \<and> c \<noteq> 105 \<and> c \<noteq> 115 \<and> c \<noteq> 107) cs"
  shows "accepts True (map (\<lambda>c. Chr [Lit c]) cs) w \<longleftrightarrow> map ascii_lower w = cs"
  using assms
proof (induction cs arbitrary: w)
  case Nil
  show ?case by simp
next
  case (Cons c cs)
  then have c: "97 \<le> c" "c \<le> 122" "c \<noteq> 105" "c \<noteq> 115" "c \<noteq> 107"
    and rest: "list_all (\<lambda>c. 97 \<le> c \<and> c \<le> 122 \<and> c \<noteq> 105 \<and> c \<noteq> 115 \<and> c \<noteq> 107) cs"
    by simp_all
  have "accepts True (map (\<lambda>c. Chr [Lit c]) (c # cs)) w \<longleftrightarrow>
      (\<exists>x v. w = x # v \<and> in_class True [Lit c] x \<and> accepts True (map (\<lambda>c. Chr [Lit c]) cs) v)"
    by simp
  also have "\<dots> \<longleftrightarrow> (\<exists>x v. w = x # v \<and> ascii_lower x = c \<and> map ascii_lower v = cs)"
    unfolding Cons.IH[OF rest] by (simp add: in_class_def in_atom_Lit_ic in_variants_plain[OF c])
  also have "\<dots> \<longleftrightarrow> map ascii_lower w = c # cs"
    by (cases w) auto
  finally show ?case .
qed

lemma plain_markers:
  "list_all (\<lambda>c. 97 \<le> c \<and> c \<le> 122 \<and> c \<noteq> 105 \<and> c \<noteq> 115 \<and> c \<noteq> 107) (str ''vendor'')"
  "list_all (\<lambda>c. 97 \<le> c \<and> c \<le> 122 \<and> c \<noteq> 105 \<and> c \<noteq> 115 \<and> c \<noteq> 107) (str ''from'')"
  "list_all (\<lambda>c. 97 \<le> c \<and> c \<le> 122 \<and> c \<noteq> 105 \<and> c \<noteq> 115 \<and> c \<noteq> 107) (str ''ordered'')"
  by (simp_all add: str_def cp_def)

lemma accepts_literal:
  "accepts True (literal ''vendor'') w \<longleftrightarrow> map ascii_lower w = str ''vendor''"
  "accepts True (literal ''from'') w \<longleftrightarrow> map ascii_lower w = str ''from''"
  "accepts True (literal ''ordered'') w \<longleftrightarrow> map ascii_lower w = str ''ordered''"
  unfolding literal_def by (rule accepts_literal_plain, rule plain_markers)+

lemma accepts_Rep1_only:
  "accepts ic [Rep1 a] w \<longleftrightarrow> w \<noteq> [] \<and> list_all (in_class ic a) w"
  by auto

lemma in_class_name:
  "in_class True [Rng (cp CHR ''A'') (cp CHR ''Z''), Rng (cp CHR ''a'') (cp CHR ''z''),
           Rng (cp CHR ''0'') (cp CHR ''9''), Space,
           Lit (cp CHR ''-''), Lit (cp CHR ''_''), Lit (cp CHR ''.'')] c = name_char c"
proof -
  have lits: "in_atom True (Lit 45) c \<longleftrightarrow> c = 45" "in_atom True (Lit 95) c \<longleftrightarrow> c = 95"
      "in_atom True (Lit 46) c \<longleftrightarrow> c = 46"
    by (simp_all add: in_atom_Lit_ic case_variants_def)
  show ?thesis
    unfolding in_class_def name_char_def cp_values
    by (simp only: list_ex_Cons_iff list_ex_Nil_iff in_atom_upper_ic in_atom_lower_ic in_atom_digit_ic
          in_atom_Space lits simp_thms) blast
qed

lemma accepts_name_span: "accepts True name_span w \<longleftrightarrow> w \<noteq> [] \<and> list_all name_char w"
proof -
  have "(\<lambda>c. in_class True [Rng (cp CHR ''A'') (cp CHR ''Z''), Rng (cp CHR ''a'') (cp CHR ''z''),
           Rng (cp CHR ''0'') (cp CHR ''9''), Space,
           Lit (cp CHR ''-''), Lit (cp CHR ''_''), Lit (cp CHR ''.'')] c) = name_char"
    by (rule ext) (rule in_class_name)
  then show ?thesis
    by (simp add: name_span_def)
qed

lemma in_class_space: "in_class True [Space] c = is_space c"
  by (simp add: in_class_def in_atom_Space)

lemma in_class_colon_space:
  "in_class True [Lit (cp CHR '':''), Space] c = (c = cp CHR '':'' \<or> is_space c)"
  by (simp add: in_class_def in_atom_Space in_atom_Lit_ic case_variants_def cp_values)

lemma accepts_literal_gen:
  assumes "list_all (\<lambda>c. 97 \<le> c \<and> c \<le> 122 \<and> c \<noteq> 105 \<and> c \<noteq> 115 \<and> c \<noteq> 107) (str marker)"
  shows "accepts True (literal marker) w \<longleftrightarrow> map ascii_lower w = str marker"
  unfolding literal_def using assms by (rule accepts_literal_plain)

lemma accepts_marker:
  assumes "list_all (\<lambda>c. 97 \<le> c \<and> c \<le> 122 \<and> c \<noteq> 105 \<and> c \<noteq> 115 \<and> c \<noteq> 107) (str marker)"
  shows "accepts True (literal marker @ [Rep1 seps] @ name_span) w \<longleftrightarrow>
     (\<exists>m sep name. w = m @ sep @ name \<and> map ascii_lower m = str marker \<and>
        sep \<noteq> [] \<and> list_all (in_class True seps) sep \<and> name \<noteq> [] \<and> list_all name_char name)"
  unfolding accepts_append accepts_literal_gen[OF assms] accepts_Rep1_only accepts_name_span
  by blast

lemma has_match_marker:
  assumes "list_all (\<lambda>c. 97 \<le> c \<and> c \<le> 122 \<and> c \<noteq> 105 \<and> c \<noteq> 115 \<and> c \<noteq> 107) (str marker)"
  shows "has_match (Regex True (literal marker @ [Rep1 seps] @ name_span)) text \<longleftrightarrow>
     marker_then_name marker (in_class True seps) text"
  (is "?L \<longleftrightarrow> ?R")
proof
  assume ?L
  then obtain pre w rest where h: "text = pre @ w @ rest"
      "accepts True (literal marker @ [Rep1 seps] @ name_span) w"
    unfolding has_match.simps by blast
  from h(2) obtain m sep name where w: "w = m @ sep @ name" "map ascii_lower m = str marker" "sep \<noteq> []"
      "list_all (in_class True seps) sep" "name \<noteq> []" "list_all name_char name"
    unfolding accepts_marker[OF assms] by blast
  from h(1) w(1) have "text = pre @ m @ sep @ name @ rest" by simp
  with w show ?R unfolding marker_then_name_def by blast
next
  assume ?R
  then obtain pre m sep name rest where h: "text = pre @ m @ sep @ name @ rest"
      "map ascii_lower m = str marker" "sep \<noteq> []" "list_all (in_class True seps) sep"
      "name \<noteq> []" "list_all name_char name"
    unfolding marker_then_name_def by blast
  then have "accepts True (literal marker @ [Rep1 seps] @ name_span) (m @ sep @ name)"
    unfolding accepts_marker[OF assms] by blast
  moreover from h(1) have "text = pre @ (m @ sep @ name) @ rest" by simp
  ultimately show ?L unfolding has_match.simps by blast
qed

lemma has_match_vendor:
  "has_match pat_vendor text \<longleftrightarrow>
     marker_then_name ''vendor'' (\<lambda>c. c = cp CHR '':'' \<or> is_space c) text"
proof -
  have "in_class True [Lit (cp CHR '':''), Space] = (\<lambda>c. c = cp CHR '':'' \<or> is_space c)"
    by (rule ext) (rule in_class_colon_space)
  then show ?thesis
    unfolding pat_vendor_def has_match_marker[OF plain_markers(1)] by simp
qed

lemma has_match_from:
  "has_match pat_from text \<longleftrightarrow> marker_then_name ''from'' is_space text"
proof -
  have "in_class True [Space] = is_space"
    by (rule ext) (rule in_class_space)
  then show ?thesis
    unfolding pat_from_def has_match_marker[OF plain_markers(2)] by simp
qed

lemma has_match_suffix:
  assumes "has_match (Regex ic (ps @ qs)) text"
  shows "has_match (Regex ic qs) text"
proof -
  from assms obtain pre w rest where h: "text = pre @ w @ rest" "accepts ic (ps @ qs) w"
    by auto
  then obtain u v where uv: "w = u @ v" "accepts ic ps u" "accepts ic qs v"
    unfolding accepts_append by blast
  with h have "text = (pre @ u) @ v @ rest" by simp
  with uv show ?thesis unfolding has_match.simps by blast
qed

lemma has_match_ordered_from:
  "has_match pat_ordered_from text \<Longrightarrow> has_match pat_from text"
proof -
  assume "has_match pat_ordered_from text"
  then have "has_match (Regex True ((literal ''ordered'' @ [Rep1 [Space]]) @ (literal ''from'' @ [Rep1 [Space]] @ name_span))) text"
    by (simp add: pat_ordered_from_def)
  then show ?thesis
    unfolding pat_from_def by (rule has_match_suffix)
qed

lemma has_match_ordered:
  "has_match pat_ordered_from text \<longleftrightarrow> ordered_from_then_name text"
  (is "?L \<longleftrightarrow> ?R")
proof -
  have sp: "in_class True [Space] = is_space"
    by (rule ext) (rule in_class_space)
  have acc: "\<And>w. accepts True (literal ''ordered'' @ [Rep1 [Space]] @ literal ''from'' @ [Rep1 [Space]] @ name_span) w \<longleftrightarrow>
      (\<exists>m1 sep1 m2 sep2 name. w = m1 @ sep1 @ m2 @ sep2 @ name \<and>
        map ascii_lower m1 = str ''ordered'' \<and> sep1 \<noteq> [] \<and> list_all is_space sep1 \<and>
        map ascii_lower m2 = str ''from'' \<and> sep2 \<noteq> [] \<and> list_all is_space sep2 \<and>
        name \<noteq> [] \<and> list_all name_char name)"
    unfolding accepts_append[of True "literal ''ordered''"] accepts_append[of True "[Rep1 [Space]]"]
      accepts_marker[OF plain_markers(2)] accepts_literal accepts_Rep1_only sp
    by blast
  show ?thesis
  proof
    assume ?L
    then obtain pre w rest where h: "text = pre @ w @ rest"
      "accepts True (literal ''ordered'' @ [Rep1 [Space]] @ literal ''from'' @ [Rep1 [Space]] @ name_span) w"
      unfolding pat_ordered_from_def has_match.simps by blast
    from h(2) obtain m1 sep1 m2 sep2 name where w: "w = m1 @ sep1 @ m2 @ sep2 @ name"
        "map ascii_lower m1 = str ''ordered''" "sep1 \<noteq> []" "list_all is_space sep1"
        "map ascii_lower m2 = str ''from''" "sep2 \<noteq> []" "list_all is_space sep2"
        "name \<noteq> []" "list_all name_char name"
      unfolding acc by blast
    from h(1) w(1) have "text = pre @ m1 @ sep1 @ m2 @ sep2 @ name @ rest" by simp
    with w show ?R unfolding ordered_from_then_name_def by blast
  next
    assume ?R
    then obtain pre m1 sep1 m2 sep2 name rest where w: "text = pre @ m1 @ sep1 @ m2 @ sep2 @ name @ rest"
        "map ascii_lower m1 = str ''ordered''" "sep1 \<noteq> []" "list_all is_space sep1"
        "map ascii_lower m2 = str ''from''" "sep2 \<noteq> []" "list_all is_space sep2"
        "name \<noteq> []" "list_all name_char name"
      unfolding ordered_from_then_name_def by blast
    then have "accepts True (literal ''ordered'' @ [Rep1 [Space]] @ literal ''from'' @ [Rep1 [Space]] @ name_span)
        (m1 @ sep1 @ m2 @ sep2 @ name)"
      unfolding acc by blast
    moreover from w(1) have "text = pre @ (m1 @ sep1 @ m2 @ sep2 @ name) @ rest" by simp
    ultimately show ?L unfolding pat_ordered_from_def has_match.simps by blast
  qed
qed

section \<open>Matching does not depend on case\<close>

text \<open>
  Under \<open>(?i)\<close> every test of a code point gives the same answer on an ASCII capital
  and on its small letter, so the matcher finds the same spans in a text and in the
  text with its ASCII capitals made small.
\<close>

lemma in_variants_ascii_lower:
  "ascii_lower x \<in> set (case_variants c) \<longleftrightarrow> x \<in> set (case_variants c)"
  by (auto simp: case_variants_def case_specials_def ascii_lower_def split: if_splits)

lemma is_space_ascii_lower: "is_space (ascii_lower c) = is_space c"
  by (auto simp: is_space_def ascii_lower_def)

lemma in_atom_ascii_lower: "in_atom True a (ascii_lower x) = in_atom True a x"
proof (cases a)
  case (Lit c)
  then show ?thesis by (simp add: in_atom_Lit_ic in_variants_ascii_lower)
next
  case (Rng lo hi)
  then show ?thesis by (simp add: in_atom_Rng_ic in_variants_ascii_lower)
next
  case Space
  then show ?thesis by (simp add: in_atom_Space is_space_ascii_lower)
qed

lemma in_class_ascii_lower: "in_class True atoms (ascii_lower x) = in_class True atoms x"
  by (simp add: in_class_def list_ex_iff in_atom_ascii_lower)

lemma rx_match_ascii_lower:
  "ic \<Longrightarrow> rx_match ic ps (map ascii_lower s) pos cap = rx_match ic ps s pos cap"
proof (induction ic ps s pos cap rule: rx_match.induct)
  case (5 ic a ps x xs pos cap)
  then show ?case by (simp add: in_class_ascii_lower)
next
  case (7 ic a ps x xs pos cap)
  then show ?case by (auto simp: in_class_ascii_lower split: option.splits)
qed simp_all

lemma rx_search_at_ascii_lower:
  "rx_search_at True ps (map ascii_lower s) pos = rx_search_at True ps s pos"
proof (induction s arbitrary: pos)
  case Nil
  show ?case by simp
next
  case (Cons x xs)
  have "rx_match True ps (map ascii_lower (x # xs)) pos (0, 0) = rx_match True ps (x # xs) pos (0, 0)"
    by (rule rx_match_ascii_lower) simp
  then show ?case using Cons.IH by (simp split: option.splits)
qed

lemma slice_map: "slice (map f text) cap = map f (slice text cap)"
  by (cases cap) (simp add: take_map drop_map)

lemma dropWhile_space_ascii_lower:
  "dropWhile is_space (map ascii_lower s) = map ascii_lower (dropWhile is_space s)"
  by (induction s) (simp_all add: is_space_ascii_lower)

lemma strip_ascii_lower: "strip (map ascii_lower s) = map ascii_lower (strip s)"
  by (simp add: strip_def lstrip_def rstrip_def dropWhile_space_ascii_lower rev_map)

lemma re_search_ascii_lower:
  "re_search (Regex True ps) (map ascii_lower text) =
   map_option (map ascii_lower) (re_search (Regex True ps) text)"
  by (cases "rx_search_at True ps text 0") (simp_all add: rx_search_at_ascii_lower slice_map)

lemma first_match_ascii_lower:
  "list_all (\<lambda>p. \<exists>ps. p = Regex True ps) pats \<Longrightarrow>
   first_match pats (map ascii_lower text) = map_option (map ascii_lower) (first_match pats text)"
proof (induction pats)
  case Nil
  show ?case by simp
next
  case (Cons p pats)
  from Cons.prems obtain ps where p: "p = Regex True ps" by auto
  from Cons.prems have ih: "first_match pats (map ascii_lower text) =
      map_option (map ascii_lower) (first_match pats text)"
    by (intro Cons.IH) simp
  have rs: "re_search p (map ascii_lower text) = map_option (map ascii_lower) (re_search p text)"
    unfolding p by (rule re_search_ascii_lower)
  show ?case
  proof (cases "re_search p text")
    case None
    with rs ih show ?thesis by simp
  next
    case (Some g)
    with rs show ?thesis by (simp add: strip_ascii_lower)
  qed
qed

lemma extract_vendor_name_ascii_lower:
  "extract_vendor_name (map ascii_lower text) =
   map_option (map ascii_lower) (extract_vendor_name text)"
  unfolding extract_vendor_name_def
  by (rule first_match_ascii_lower) (simp add: patterns_def pat_vendor_def pat_from_def pat_ordered_from_def)

text \<open>What \<open>strip\<close> returns.\<close>

lemma dropWhile_hd: "dropWhile P xs \<noteq> [] \<Longrightarrow> \<not> P (hd (dropWhile P xs))"
  by (metis hd_dropWhile)

lemma strip_trimmed: "trimmed_of (strip g) g"
proof -
  let ?d = "dropWhile is_space g"
  let ?l = "takeWhile is_space g"
  let ?r = "rev (takeWhile is_space (rev ?d))"
  have s: "strip g = rev (dropWhile is_space (rev ?d))"
    by (simp add: strip_def lstrip_def rstrip_def)
  have d: "?d = strip g @ ?r"
  proof -
    have "?d = rev (takeWhile is_space (rev ?d) @ dropWhile is_space (rev ?d))"
      by (simp only: takeWhile_dropWhile_id rev_rev_ident)
    also have "\<dots> = rev (dropWhile is_space (rev ?d)) @ rev (takeWhile is_space (rev ?d))"
      by (simp only: rev_append)
    finally show ?thesis unfolding s .
  qed
  have "g = ?l @ ?d" by simp
  with d have g: "g = ?l @ strip g @ ?r" by simp
  have l: "list_all is_space ?l"
    by (simp add: list_all_iff) (meson set_takeWhileD)
  have r: "list_all is_space ?r"
    by (simp add: list_all_iff) (meson set_takeWhileD)
  have ends: "\<not> is_space (hd (strip g)) \<and> \<not> is_space (last (strip g))" if ne: "strip g \<noteq> []"
  proof -
    have dne: "?d \<noteq> []"
    proof
      assume "?d = []"
      then have "strip g @ ?r = []" using d by (simp only:)
      with ne show False by simp
    qed
    then have "\<not> is_space (hd ?d)" by (rule dropWhile_hd)
    moreover from d ne have "hd ?d = hd (strip g)" by (metis hd_append2)
    ultimately have h: "\<not> is_space (hd (strip g))" by simp
    from ne s have "dropWhile is_space (rev ?d) \<noteq> []" by simp
    then have "\<not> is_space (hd (dropWhile is_space (rev ?d)))" by (rule dropWhile_hd)
    moreover have "last (strip g) = hd (dropWhile is_space (rev ?d))"
      unfolding s by (simp add: last_rev)
    ultimately show ?thesis using h by simp
  qed
  from g l r ends show ?thesis unfolding trimmed_of_def by blast
qed

section \<open>The group of a match\<close>

text \<open>
  When the matcher succeeds, the span it returns is the span of the parentheses in an
  accepted word of the text.
\<close>

lemma rx_match_span:
  "rx_match ic ps s pos cap = Some grp \<Longrightarrow> \<exists>w r. s = w @ r \<and> accepts_span ic ps w pos cap grp"
proof (induction ic ps s pos cap arbitrary: grp rule: rx_match.induct)
  case (1 ic s pos cap)
  then have "s = [] @ s \<and> accepts_span ic [] [] pos cap grp" by simp
  then show ?case by blast
next
  case (2 ic ps s pos cap)
  then show ?case by simp
next
  case (3 ic ps s pos cap)
  then show ?case by simp
next
  case (4 ic a ps pos cap)
  then show ?case by simp
next
  case (5 ic a ps x xs pos cap)
  from 5(2) have inx: "in_class ic a x" and m: "rx_match ic ps xs (Suc pos) cap = Some grp"
    by (simp_all split: if_splits)
  from 5(1)[OF inx m] obtain w r where "xs = w @ r" "accepts_span ic ps w (Suc pos) cap grp"
    by blast
  with inx have "x # xs = (x # w) @ r" "accepts_span ic (Chr a # ps) (x # w) pos cap grp"
    by simp_all
  then show ?case by blast
next
  case (6 ic a ps pos cap)
  then show ?case by simp
next
  case (7 ic a ps x xs pos cap)
  from 7(3) have inx: "in_class ic a x" by (simp split: if_splits)
  show ?case
  proof (cases "rx_match ic (Rep1 a # ps) xs (Suc pos) cap")
    case None
    with 7(3) inx have m: "rx_match ic ps xs (Suc pos) cap = Some grp" by simp
    from 7(2)[OF inx None m] obtain w r where h: "xs = w @ r" "accepts_span ic ps w (Suc pos) cap grp"
      by blast
    have "accepts_span ic (Rep1 a # ps) ([x] @ w) pos cap grp"
      unfolding accepts_span.simps
      by (rule exI[of _ "[x]"], rule exI[of _ w]) (use h inx in simp)
    moreover from h have "x # xs = ([x] @ w) @ r" by simp
    ultimately show ?thesis by blast
  next
    case (Some res)
    with 7(3) inx have "res = grp" by simp
    with Some have m: "rx_match ic (Rep1 a # ps) xs (Suc pos) cap = Some grp" by simp
    from 7(1)[OF inx m] obtain w r where h: "xs = w @ r" "accepts_span ic (Rep1 a # ps) w (Suc pos) cap grp"
      by blast
    from h(2) obtain u v where uv: "w = u @ v" "u \<noteq> []" "list_all (in_class ic a) u"
        "accepts_span ic ps v (Suc pos + length u) cap grp"
      by auto
    have "accepts_span ic (Rep1 a # ps) ((x # u) @ v) pos cap grp"
      unfolding accepts_span.simps
      by (rule exI[of _ "x # u"], rule exI[of _ v]) (use uv inx in simp)
    moreover from h uv have "x # xs = ((x # u) @ v) @ r" by simp
    ultimately show ?thesis by blast
  qed
qed

lemma rx_search_at_span:
  "rx_search_at ic ps s pos = Some grp \<Longrightarrow>
   \<exists>pre w r. s = pre @ w @ r \<and> accepts_span ic ps w (pos + length pre) (0, 0) grp"
proof (induction s arbitrary: pos)
  case Nil
  then have "rx_match ic ps [] pos (0, 0) = Some grp" by simp
  from rx_match_span[OF this] obtain w r where "[] = w @ r" "accepts_span ic ps w pos (0, 0) grp"
    by blast
  then have "[] = [] @ w @ r" "accepts_span ic ps w (pos + length ([]::nat list)) (0, 0) grp"
    by simp_all
  then show ?case by blast
next
  case (Cons x xs)
  show ?case
  proof (cases "rx_match ic ps (x # xs) pos (0, 0)")
    case None
    with Cons.prems have "rx_search_at ic ps xs (Suc pos) = Some grp" by simp
    from Cons.IH[OF this] obtain pre w r where h: "xs = pre @ w @ r"
        "accepts_span ic ps w (Suc pos + length pre) (0, 0) grp"
      by blast
    then have "x # xs = (x # pre) @ w @ r" "accepts_span ic ps w (pos + length (x # pre)) (0, 0) grp"
      by simp_all
    then show ?thesis by blast
  next
    case (Some res)
    with Cons.prems have "res = grp" by simp
    with Some have "rx_match ic ps (x # xs) pos (0, 0) = Some grp" by simp
    from rx_match_span[OF this] obtain w r where "x # xs = w @ r" "accepts_span ic ps w pos (0, 0) grp"
      by blast
    then have "x # xs = [] @ w @ r" "accepts_span ic ps w (pos + length ([]::nat list)) (0, 0) grp"
      by simp_all
    then show ?thesis by blast
  qed
qed

lemma accepts_span_append:
  assumes "list_all (\<lambda>p. p \<noteq> GrpOpen \<and> p \<noteq> GrpClose) ps"
    and "accepts_span ic (ps @ qs) w pos cap grp"
  shows "\<exists>u v. w = u @ v \<and> accepts ic ps u \<and> accepts_span ic qs v (pos + length u) cap grp"
  using assms
proof (induction ps arbitrary: w pos)
  case Nil
  then have "w = [] @ w" "accepts ic [] []" "accepts_span ic qs w (pos + length ([]::nat list)) cap grp"
    by simp_all
  then show ?case by blast
next
  case (Cons p ps)
  from Cons.prems(1) have rest: "list_all (\<lambda>p. p \<noteq> GrpOpen \<and> p \<noteq> GrpClose) ps"
    and p: "p \<noteq> GrpOpen" "p \<noteq> GrpClose"
    by simp_all
  show ?case
  proof (cases p)
    case (Chr a)
    with Cons.prems(2) obtain x v where h: "w = x # v" "in_class ic a x"
        "accepts_span ic (ps @ qs) v (Suc pos) cap grp"
      by auto
    from Cons.IH[OF rest h(3)] obtain u v' where uv: "v = u @ v'" "accepts ic ps u"
        "accepts_span ic qs v' (Suc pos + length u) cap grp"
      by blast
    with h Chr have "w = (x # u) @ v'" "accepts ic (p # ps) (x # u)"
        "accepts_span ic qs v' (pos + length (x # u)) cap grp"
      by simp_all
    then show ?thesis by blast
  next
    case (Rep1 a)
    with Cons.prems(2) obtain u0 v where h: "w = u0 @ v" "u0 \<noteq> []" "list_all (in_class ic a) u0"
        "accepts_span ic (ps @ qs) v (pos + length u0) cap grp"
      by auto
    from Cons.IH[OF rest h(4)] obtain u v' where uv: "v = u @ v'" "accepts ic ps u"
        "accepts_span ic qs v' (pos + length u0 + length u) cap grp"
      by blast
    have "accepts ic (p # ps) (u0 @ u)"
      unfolding Rep1 accepts.simps
      by (rule exI[of _ u0], rule exI[of _ u]) (use h uv in simp)
    moreover from h uv have "w = (u0 @ u) @ v'"
        "accepts_span ic qs v' (pos + length (u0 @ u)) cap grp"
      by (simp_all add: add.assoc)
    ultimately show ?thesis by blast
  next
    case GrpOpen
    with p show ?thesis by simp
  next
    case GrpClose
    with p show ?thesis by simp
  qed
qed

lemma accepts_span_name:
  assumes "accepts_span True name_span w pos cap grp"
  shows "w \<noteq> [] \<and> list_all name_char w \<and> grp = (pos, pos + length w)"
proof -
  from assms obtain u v where h: "w = u @ v" "u \<noteq> []"
      "list_all (in_class True [Rng (cp CHR ''A'') (cp CHR ''Z''), Rng (cp CHR ''a'') (cp CHR ''z''),
           Rng (cp CHR ''0'') (cp CHR ''9''), Space,
           Lit (cp CHR ''-''), Lit (cp CHR ''_''), Lit (cp CHR ''.'')]) u"
      "v = []" "grp = (pos, pos + length u)"
    by (auto simp: name_span_def)
  have "list_all name_char u"
    using h(3) by (simp add: list_all_iff in_class_name)
  with h show ?thesis by simp
qed

text \<open>The group of a match of a marker pattern is the name that follows the marker.\<close>

lemma re_search_marker_span:
  assumes plain: "list_all (\<lambda>c. 97 \<le> c \<and> c \<le> 122 \<and> c \<noteq> 105 \<and> c \<noteq> 115 \<and> c \<noteq> 107) (str marker)"
    and nogrp: "list_all (\<lambda>p. p \<noteq> GrpOpen \<and> p \<noteq> GrpClose) front"
    and found: "re_search (Regex True (front @ literal marker @ [Rep1 seps] @ name_span)) text = Some g"
  shows "name_after_marker marker (in_class True seps) text g"
proof -
  from found obtain grp where sp:
      "rx_search_at True (front @ literal marker @ [Rep1 seps] @ name_span) text 0 = Some grp"
      and g: "g = slice text grp"
    by auto
  from rx_search_at_span[OF sp] obtain pre w r where h: "text = pre @ w @ r"
      "accepts_span True ((front @ literal marker @ [Rep1 seps]) @ name_span) w (length pre) (0, 0) grp"
    by auto
  have nogrp': "list_all (\<lambda>p. p \<noteq> GrpOpen \<and> p \<noteq> GrpClose) (front @ literal marker @ [Rep1 seps])"
    using nogrp by (auto simp: literal_def list_all_iff)
  from accepts_span_append[OF nogrp' h(2)] obtain u v where uv: "w = u @ v"
      "accepts True (front @ literal marker @ [Rep1 seps]) u"
      "accepts_span True name_span v (length pre + length u) (0, 0) grp"
    by blast
  from uv(2) obtain f m sep where ms: "u = f @ m @ sep" "map ascii_lower m = str marker" "sep \<noteq> []"
      "list_all (in_class True seps) sep"
    unfolding accepts_append accepts_literal_gen[OF plain] accepts_Rep1_only by blast
  from accepts_span_name[OF uv(3)] have v: "v \<noteq> []" "list_all name_char v"
      "grp = (length pre + length u, length pre + length u + length v)"
    by simp_all
  have "text = (pre @ u) @ v @ r" using h(1) uv(1) by simp
  then have "slice text grp = v"
    unfolding v(3) by simp
  with g have gv: "g = v" by simp
  from h(1) uv(1) ms(1) gv have "text = (pre @ f) @ m @ sep @ g @ r" by simp
  with ms v gv show ?thesis unfolding name_after_marker_def by blast
qed

lemma re_search_vendor_span:
  assumes "re_search pat_vendor text = Some g"
  shows "name_after_marker ''vendor'' (\<lambda>c. c = cp CHR '':'' \<or> is_space c) text g"
proof -
  have f: "list_all (\<lambda>p. p \<noteq> GrpOpen \<and> p \<noteq> GrpClose) []" by simp
  from assms have h: "re_search (Regex True ([] @ literal ''vendor'' @ [Rep1 [Lit (cp CHR '':''), Space]] @ name_span)) text = Some g"
    by (simp add: pat_vendor_def)
  have "name_after_marker ''vendor'' (in_class True [Lit (cp CHR '':''), Space]) text g"
    by (rule re_search_marker_span[OF plain_markers(1) f h])
  moreover have "in_class True [Lit (cp CHR '':''), Space] = (\<lambda>c. c = cp CHR '':'' \<or> is_space c)"
    by (rule ext) (rule in_class_colon_space)
  ultimately show ?thesis by simp
qed

lemma re_search_from_span:
  assumes "re_search pat_from text = Some g"
  shows "name_after_marker ''from'' is_space text g"
proof -
  have f: "list_all (\<lambda>p. p \<noteq> GrpOpen \<and> p \<noteq> GrpClose) []" by simp
  from assms have h: "re_search (Regex True ([] @ literal ''from'' @ [Rep1 [Space]] @ name_span)) text = Some g"
    by (simp add: pat_from_def)
  have "name_after_marker ''from'' (in_class True [Space]) text g"
    by (rule re_search_marker_span[OF plain_markers(2) f h])
  moreover have "in_class True [Space] = is_space"
    by (rule ext) (rule in_class_space)
  ultimately show ?thesis by simp
qed

lemma re_search_ordered_span:
  assumes "re_search pat_ordered_from text = Some g"
  shows "name_after_marker ''from'' is_space text g"
proof -
  have f: "list_all (\<lambda>p. p \<noteq> GrpOpen \<and> p \<noteq> GrpClose) (literal ''ordered'' @ [Rep1 [Space]])"
    by (auto simp: literal_def list_all_iff)
  from assms have h: "re_search (Regex True ((literal ''ordered'' @ [Rep1 [Space]]) @ literal ''from'' @ [Rep1 [Space]] @ name_span)) text = Some g"
    by (simp add: pat_ordered_from_def)
  have "name_after_marker ''from'' (in_class True [Space]) text g"
    by (rule re_search_marker_span[OF plain_markers(2) f h])
  moreover have "in_class True [Space] = is_space"
    by (rule ext) (rule in_class_space)
  ultimately show ?thesis by simp
qed

section \<open>Vendor extraction: the order of the patterns\<close>

text \<open>
  C1. For every text, a sequence of arbitrary Unicode code points,
  \<open>extract_vendor_name\<close> tries the pattern for \<open>vendor\<close>, then the pattern for \<open>from\<close>,
  then the pattern for \<open>ordered from\<close>, and returns the stripped group of the first one
  that matches. A pattern matches exactly when the text contains its marker word, in
  any mix of upper and lower case, followed by separators and a name; the group of a
  match is such a name. The value returned is the group with the white space at its
  two ends removed: it lies in the group between two runs of white space and neither
  starts nor ends with white space. The result is \<open>None\<close> exactly when no pattern
  matches. Changing the case of ASCII letters in the text changes the result only in
  the case of its letters.
\<close>

theorem extract_vendor_name_priority:
  "extract_vendor_name text =
     (case re_search pat_vendor text of
        Some g \<Rightarrow> Some (strip g)
      | None \<Rightarrow>
     (case re_search pat_from text of
        Some g \<Rightarrow> Some (strip g)
      | None \<Rightarrow>
     (case re_search pat_ordered_from text of
        Some g \<Rightarrow> Some (strip g)
      | None \<Rightarrow> None)))
   \<and> (re_search pat_vendor text \<noteq> None \<longleftrightarrow>
        marker_then_name ''vendor'' (\<lambda>c. c = cp CHR '':'' \<or> is_space c) text)
   \<and> (re_search pat_from text \<noteq> None \<longleftrightarrow> marker_then_name ''from'' is_space text)
   \<and> (re_search pat_ordered_from text \<noteq> None \<longleftrightarrow> ordered_from_then_name text)
   \<and> (\<forall>g. re_search pat_vendor text = Some g \<longrightarrow>
          name_after_marker ''vendor'' (\<lambda>c. c = cp CHR '':'' \<or> is_space c) text g)
   \<and> (\<forall>g. re_search pat_from text = Some g \<longrightarrow> name_after_marker ''from'' is_space text g)
   \<and> (\<forall>g. re_search pat_ordered_from text = Some g \<longrightarrow> name_after_marker ''from'' is_space text g)
   \<and> (\<forall>v. extract_vendor_name text = Some v \<longrightarrow>
          (\<exists>g. trimmed_of v g \<and>
             (re_search pat_vendor text = Some g \<or> re_search pat_from text = Some g \<or>
              re_search pat_ordered_from text = Some g)))
   \<and> (extract_vendor_name text = None \<longleftrightarrow>
        re_search pat_vendor text = None \<and> re_search pat_from text = None \<and>
        re_search pat_ordered_from text = None)
   \<and> extract_vendor_name (map ascii_lower text) =
       map_option (map ascii_lower) (extract_vendor_name text)"
proof -
  have order: "extract_vendor_name text =
     (case re_search pat_vendor text of
        Some g \<Rightarrow> Some (strip g)
      | None \<Rightarrow>
     (case re_search pat_from text of
        Some g \<Rightarrow> Some (strip g)
      | None \<Rightarrow>
     (case re_search pat_ordered_from text of
        Some g \<Rightarrow> Some (strip g)
      | None \<Rightarrow> None)))"
    by (simp add: extract_vendor_name_def patterns_def split: option.splits)
  have none: "extract_vendor_name text = None \<longleftrightarrow>
        re_search pat_vendor text = None \<and> re_search pat_from text = None \<and>
        re_search pat_ordered_from text = None"
    unfolding order by (simp split: option.splits)
  have trim: "\<exists>g. trimmed_of v g \<and>
             (re_search pat_vendor text = Some g \<or> re_search pat_from text = Some g \<or>
              re_search pat_ordered_from text = Some g)"
    if "extract_vendor_name text = Some v" for v
  proof -
    from that obtain g where "v = strip g"
        "re_search pat_vendor text = Some g \<or> re_search pat_from text = Some g \<or>
         re_search pat_ordered_from text = Some g"
      unfolding order by (auto split: option.splits)
    then show ?thesis using strip_trimmed[of g] by blast
  qed
  have spans: "\<forall>g. re_search pat_vendor text = Some g \<longrightarrow>
          name_after_marker ''vendor'' (\<lambda>c. c = cp CHR '':'' \<or> is_space c) text g"
      "\<forall>g. re_search pat_from text = Some g \<longrightarrow> name_after_marker ''from'' is_space text g"
      "\<forall>g. re_search pat_ordered_from text = Some g \<longrightarrow> name_after_marker ''from'' is_space text g"
    using re_search_vendor_span re_search_from_span re_search_ordered_span by blast+
  have exist: "re_search pat_vendor text \<noteq> None \<longleftrightarrow>
        marker_then_name ''vendor'' (\<lambda>c. c = cp CHR '':'' \<or> is_space c) text"
      "re_search pat_from text \<noteq> None \<longleftrightarrow> marker_then_name ''from'' is_space text"
      "re_search pat_ordered_from text \<noteq> None \<longleftrightarrow> ordered_from_then_name text"
    unfolding re_search_iff has_match_vendor has_match_from has_match_ordered by (rule refl)+
  from trim have trim': "\<forall>v. extract_vendor_name text = Some v \<longrightarrow>
          (\<exists>g. trimmed_of v g \<and>
             (re_search pat_vendor text = Some g \<or> re_search pat_from text = Some g \<or>
              re_search pat_ordered_from text = Some g))"
    by blast
  show ?thesis
    using order exist spans trim' none extract_vendor_name_ascii_lower[of "text"]
    by (intro conjI)
qed

text \<open>
  A text on which the group of the first pattern ends with two spaces, which the result
  does not have; a text in which \<open>from\<close> stands before \<open>vendor\<close>, where the first
  pattern still decides; and a name that starts with the dotted capital I.
\<close>

theorem extract_vendor_name_priority_witness:
  "extract_vendor_name (str ''Best VENDOR:  Acme-1  !'') = Some (str ''Acme-1'')
   \<and> re_search pat_vendor (str ''Best VENDOR:  Acme-1  !'') = Some (str ''Acme-1  '')
   \<and> trimmed_of (str ''Acme-1'') (str ''Acme-1  '')
   \<and> marker_then_name ''vendor'' (\<lambda>c. c = cp CHR '':'' \<or> is_space c) (str ''Best VENDOR:  Acme-1  !'')
   \<and> name_after_marker ''vendor'' (\<lambda>c. c = cp CHR '':'' \<or> is_space c)
        (str ''Best VENDOR:  Acme-1  !'') (str ''Acme-1  '')
   \<and> extract_vendor_name (map ascii_lower (str ''Best VENDOR:  Acme-1  !'')) = Some (str ''acme-1'')
   \<and> extract_vendor_name (str ''from A, vendor: B'') = Some (str ''B'')
   \<and> re_search pat_from (str ''from A, vendor: B'') = Some (str ''A'')
   \<and> extract_vendor_name (str ''from '' @ [304] @ str ''stanbul!'') = Some ([304] @ str ''stanbul'')"
proof -
  have v: "re_search pat_vendor (str ''Best VENDOR:  Acme-1  !'') = Some (str ''Acme-1  '')"
    and f: "re_search pat_from (str ''Best VENDOR:  Acme-1  !'') = None"
    and o: "re_search pat_ordered_from (str ''Best VENDOR:  Acme-1  !'') = None"
    and e: "extract_vendor_name (str ''Best VENDOR:  Acme-1  !'') = Some (str ''Acme-1'')"
    by (simp_all add: vendor_eval)
  have rest: "extract_vendor_name (str ''from A, vendor: B'') = Some (str ''B'')"
    "re_search pat_from (str ''from A, vendor: B'') = Some (str ''A'')"
    "extract_vendor_name (str ''from '' @ [304] @ str ''stanbul!'') = Some ([304] @ str ''stanbul'')"
    by (simp_all add: vendor_eval)
  note th = extract_vendor_name_priority [of "str ''Best VENDOR:  Acme-1  !''"]
  note c2 = conjunct2
  from th [THEN c2, THEN c2, THEN c2, THEN c2, THEN c2, THEN c2, THEN c2, THEN conjunct1, rule_format, OF e]
  obtain g where g: "trimmed_of (str ''Acme-1'') g"
      "re_search pat_vendor (str ''Best VENDOR:  Acme-1  !'') = Some g \<or>
       re_search pat_from (str ''Best VENDOR:  Acme-1  !'') = Some g \<or>
       re_search pat_ordered_from (str ''Best VENDOR:  Acme-1  !'') = Some g"
    by blast
  from g(2) have "g = str ''Acme-1  ''" unfolding v f o by simp
  with g(1) have t: "trimmed_of (str ''Acme-1'') (str ''Acme-1  '')" by simp
  from th [THEN c2, THEN conjunct1] v
  have m: "marker_then_name ''vendor'' (\<lambda>c. c = cp CHR '':'' \<or> is_space c) (str ''Best VENDOR:  Acme-1  !'')"
    by simp
  from th [THEN c2, THEN c2, THEN c2, THEN c2, THEN conjunct1, rule_format, OF v]
  have n: "name_after_marker ''vendor'' (\<lambda>c. c = cp CHR '':'' \<or> is_space c)
        (str ''Best VENDOR:  Acme-1  !'') (str ''Acme-1  '')" .
  have "map ascii_lower (str ''Acme-1'') = str ''acme-1''"
    by (simp add: str_def cp_def ascii_lower_def)
  with th [THEN c2, THEN c2, THEN c2, THEN c2, THEN c2, THEN c2, THEN c2, THEN c2, THEN c2] e
  have l: "extract_vendor_name (map ascii_lower (str ''Best VENDOR:  Acme-1  !'')) = Some (str ''acme-1'')"
    by simp
  from e v t m n l rest show ?thesis by (intro conjI)
qed

section \<open>Vendor extraction on the example of the specification\<close>

text \<open>
  C2. On the text \<open>Ordered from Acme Co. yesterday\<close> no \<open>vendor\<close> marker occurs, so
  the second pattern decides: it finds \<open>from\<close>, and its name span, which admits
  letters, spaces and periods, runs greedily to the end of the text. The result is
  \<open>Acme Co. yesterday\<close>.
\<close>

theorem extract_vendor_name_acme:
  "extract_vendor_name (str ''Ordered from Acme Co. yesterday'') = Some (str ''Acme Co. yesterday'')"
  by (simp add: vendor_eval)

text \<open>The result on that text is not the shorter \<open>Acme Co.\<close>: the span does not end at the period.\<close>

theorem acme_capture_runs_past_the_period:
  "extract_vendor_name (str ''Ordered from Acme Co. yesterday'') \<noteq> Some (str ''Acme Co.'')"
  by (simp add: vendor_eval)

section \<open>The third pattern never decides\<close>

text \<open>
  C10. Whenever the pattern for \<open>ordered from\<close> matches a text, the pattern for
  \<open>from\<close>, which is tried before it, matches too. So \<open>extract_vendor_name\<close> equals
  the same loop over the first two patterns only.
\<close>

theorem ordered_from_shadowed:
  "(re_search pat_ordered_from text \<noteq> None \<longrightarrow> re_search pat_from text \<noteq> None)
   \<and> extract_vendor_name text = first_match [pat_vendor, pat_from] text"
proof -
  have imp: "re_search pat_ordered_from text \<noteq> None \<longrightarrow> re_search pat_from text \<noteq> None"
    unfolding re_search_iff using has_match_ordered_from by blast
  have "extract_vendor_name text = first_match [pat_vendor, pat_from] text"
  proof (cases "re_search pat_from text")
    case None
    with imp have "re_search pat_ordered_from text = None" by blast
    with None show ?thesis by (simp add: extract_vendor_name_def patterns_def split: option.splits)
  next
    case (Some g)
    then show ?thesis by (simp add: extract_vendor_name_def patterns_def split: option.splits)
  qed
  with imp show ?thesis by blast
qed

text \<open>A text on which the third pattern does match, and the second one as well.\<close>

theorem ordered_from_shadowed_witness:
  "re_search pat_ordered_from (str ''I ordered from Acme'') = Some (str ''Acme'')
   \<and> re_search pat_from (str ''I ordered from Acme'') \<noteq> None
   \<and> extract_vendor_name (str ''I ordered from Acme'') =
       first_match [pat_vendor, pat_from] (str ''I ordered from Acme'')"
  using ordered_from_shadowed [of "str ''I ordered from Acme''"]
  by (simp add: vendor_eval)

section \<open>Lower case and occurrences\<close>

lemma lower_from_append:
  "lower_from table whole i (a @ b) =
   lower_from table whole i a @ lower_from table whole (i + length a) b"
  by (induction a arbitrary: i) simp_all

lemma lower_from_ascii:
  "list_all (\<lambda>c. c < 128) m \<Longrightarrow> lower_from table whole i m = map ascii_lower m"
  by (induction m arbitrary: i) (simp_all add: lower_image_def)

lemma ascii_lower_ascii: "ascii_lower x < 128 \<Longrightarrow> x < 128"
  by (auto simp: ascii_lower_def split: if_splits)

text \<open>An occurrence of an ASCII word in any mix of case is an occurrence in the lower-cased text.\<close>

lemma occurs_lower:
  assumes ascii: "list_all (\<lambda>c. c < 128) (str word)"
    and occ: "occurs_ignoring_case word t"
  shows "substring_of (str word) (lower table t)"
proof -
  from occ obtain pre m suf where t: "t = pre @ m @ suf" and m: "map ascii_lower m = str word"
    unfolding occurs_ignoring_case_def by blast
  have "list_all (\<lambda>c. c < 128) m"
    unfolding list_all_iff
  proof
    fix x assume "x \<in> set m"
    then have "ascii_lower x \<in> set (map ascii_lower m)" by simp
    then have "ascii_lower x \<in> set (str word)" unfolding m .
    with ascii have "ascii_lower x < 128" by (simp add: list_all_iff)
    then show "x < 128" by (rule ascii_lower_ascii)
  qed
  then have mid: "lower_from table t (length pre) m = str word"
    using m by (simp add: lower_from_ascii)
  have "lower_from table t 0 (pre @ m @ suf) =
      lower_from table t 0 pre @ lower_from table t (length pre) m @
      lower_from table t (length pre + length m) suf"
    by (simp add: lower_from_append)
  then have "lower_from table t 0 (pre @ m @ suf) =
      lower_from table t 0 pre @ str word @ lower_from table t (length pre + length m) suf"
    unfolding mid .
  moreover have "lower table t = lower_from table t 0 (pre @ m @ suf)"
    unfolding lower_def by (rule arg_cong[OF t])
  ultimately have "lower table t =
      lower_from table t 0 pre @ str word @ lower_from table t (length pre + length m) suf"
    by simp
  then show ?thesis unfolding substring_of_def by blast
qed

text \<open>
  The other direction needs the table: a word of ASCII code points without \<open>k\<close> that
  does not end in \<open>i\<close> occurs in the lower-cased text only where the text has it, in some
  mix of case.
\<close>

lemma lower_from_Cons_image:
  "lower_from table whole i (c # cs) = lower_image table whole i c @ lower_from table whole (Suc i) cs"
  by simp

lemma drop_Cons_step:
  assumes "drop i whole = c # cs"
  shows "i < length whole" "whole ! i = c" "drop (Suc i) whole = cs"
proof -
  show l: "i < length whole"
  proof (rule ccontr)
    assume "\<not> i < length whole"
    then have "drop i whole = []" by simp
    with assms show False by simp
  qed
  from assms show "whole ! i = c" by (rule nth_via_drop)
  have "drop (Suc i) whole = tl (drop i whole)" by (simp add: drop_Suc tl_drop)
  with assms show "drop (Suc i) whole = cs" by simp
qed

lemma lower_image_cases:
  assumes ok: "lower_table_ok table" and pos: "drop i whole = c # cs" and c: "\<not> c < 128"
  shows "lower_image table whole i c \<noteq> [] \<and>
    (list_all (\<lambda>c. 128 \<le> c) (lower_image table whole i c) \<or>
     lower_image table whole i c = [105, 775] \<or> lower_image table whole i c = [107])"
proof (cases "c = 304 \<or> c = 8490")
  case True
  with c show ?thesis by (auto simp: lower_image_def)
next
  case False
  note s = drop_Cons_step[OF pos]
  from ok have "i < length whole \<and> 128 \<le> whole ! i \<and> whole ! i \<noteq> 304 \<and> whole ! i \<noteq> 8490 \<longrightarrow>
      table whole i \<noteq> [] \<and> list_all (\<lambda>c. 128 \<le> c) (table whole i)"
    unfolding lower_table_ok_def by (elim allE)
  with s(1) s(2) c False have "table whole i \<noteq> [] \<and> list_all (\<lambda>c. 128 \<le> c) (table whole i)"
    by simp
  moreover from c False have "lower_image table whole i c = table whole i"
    by (simp add: lower_image_def)
  ultimately show ?thesis by simp
qed

lemma lower_from_prefix:
  assumes ok: "lower_table_ok table"
    and w: "list_all (\<lambda>c. c < 128 \<and> c \<noteq> 107) w" "w \<noteq> [] \<longrightarrow> last w \<noteq> 105"
    and eq: "lower_from table whole i cs = w @ rest"
    and pos: "drop i whole = cs"
  shows "\<exists>m suf. cs = m @ suf \<and> map ascii_lower m = w"
  using w eq pos
proof (induction w arbitrary: cs i)
  case Nil
  have "cs = [] @ cs \<and> map ascii_lower [] = []" by simp
  then show ?case by blast
next
  case (Cons d w')
  note prems = Cons.prems and IH = Cons.IH
  from Cons.prems(1) have d: "d < 128" "d \<noteq> 107" and w': "list_all (\<lambda>c. c < 128 \<and> c \<noteq> 107) w'"
    by simp_all
  from Cons.prems(2) have last': "w' \<noteq> [] \<longrightarrow> last w' \<noteq> 105" by auto
  from Cons.prems(2) have d105: "w' = [] \<longrightarrow> d \<noteq> 105" by auto
  show ?case
  proof (cases cs)
    case Nil
    with prems(3) show ?thesis by simp
  next
    case (Cons c cs')
    from prems(4) have pos: "drop i whole = c # cs'" unfolding Cons .
    note step = drop_Cons_step[OF pos]
    show ?thesis
    proof (cases "c < 128")
      case True
      have "lower_from table whole i (c # cs') = ascii_lower c # lower_from table whole (Suc i) cs'"
        using True by (simp add: lower_image_def)
      with prems(3) have "ascii_lower c # lower_from table whole (Suc i) cs' = d # (w' @ rest)"
        unfolding Cons by simp
      then have hd: "ascii_lower c = d" and tl: "lower_from table whole (Suc i) cs' = w' @ rest"
        by (simp_all only: list.inject)
      have "\<exists>m suf. cs' = m @ suf \<and> map ascii_lower m = w'"
        using w' last' tl step(3) by (rule IH)
      then obtain m suf where ms: "cs' = m @ suf" "map ascii_lower m = w'"
        by (elim exE conjE)
      have "cs = (c # m) @ suf \<and> map ascii_lower (c # m) = d # w'"
        unfolding Cons ms(1) using hd ms(2) by simp
      then show ?thesis by (intro exI)
    next
      case False
      let ?im = "lower_image table whole i c"
      from prems(3) have eq: "?im @ lower_from table whole (Suc i) cs' = d # w' @ rest"
        unfolding Cons lower_from_Cons_image by simp
      note img = lower_image_cases[OF ok pos False]
      from img have ne: "?im \<noteq> []" by (rule conjunct1)
      from img have dis: "list_all (\<lambda>c. 128 \<le> c) ?im \<or> ?im = [105, 775] \<or> ?im = [107]"
        by (rule conjunct2)
      from dis show ?thesis
      proof (elim disjE)
        assume big: "list_all (\<lambda>c. 128 \<le> c) ?im"
        from ne obtain y ys where y: "?im = y # ys"
          by (cases ?im) simp_all
        with big have "128 \<le> y" by simp
        moreover from eq y have "y = d" by simp
        ultimately show ?thesis using d by simp
      next
        assume im: "?im = [105, 775]"
        with eq have "d = 105" and tl: "775 # lower_from table whole (Suc i) cs' = w' @ rest"
          by simp_all
        with d105 have "w' \<noteq> []" by simp
        then obtain e w'' where e: "w' = e # w''" by (cases w') simp_all
        with tl have "e = 775" by simp
        with e w' show ?thesis by simp
      next
        assume "?im = [107]"
        with eq have "d = 107" by simp
        with d show ?thesis by simp
      qed
    qed
  qed
qed

lemma substring_of_Cons_tail:
  assumes "\<exists>pre m suf. cs' = pre @ m @ suf \<and> map ascii_lower m = w"
  shows "\<exists>pre m suf. c # cs' = pre @ m @ suf \<and> map ascii_lower m = w"
proof -
  from assms obtain pre m suf where h: "cs' = pre @ m @ suf" "map ascii_lower m = w"
    by (elim exE conjE)
  have "c # cs' = (c # pre) @ m @ suf \<and> map ascii_lower m = w"
    using h by simp
  then show ?thesis by (intro exI)
qed

lemma lower_from_substring:
  assumes ok: "lower_table_ok table"
    and w: "list_all (\<lambda>c. c < 128 \<and> c \<noteq> 107) w" "last w \<noteq> 105" "w \<noteq> []"
    and sub: "substring_of w (lower_from table whole i cs)"
    and pos: "drop i whole = cs"
  shows "\<exists>pre m suf. cs = pre @ m @ suf \<and> map ascii_lower m = w"
  using sub pos
proof (induction cs arbitrary: i)
  case Nil
  then have "w = []" by (simp add: substring_of_def)
  with w(3) show ?case by simp
next
  case (Cons c cs')
  note IH = Cons.IH
  note pos = Cons.prems(2)
  note step = drop_Cons_step[OF pos]
  let ?im = "lower_image table whole i c"
  let ?L = "lower_from table whole (Suc i) cs'"
  from Cons.prems(1) obtain pre0 suf0 where eq: "?im @ ?L = pre0 @ w @ suf0"
    unfolding lower_from_Cons_image substring_of_def by (elim exE)
  from w(3) obtain y w' where yw: "w = y # w'" by (cases w) simp_all
  with w(1) have y: "y < 128" "y \<noteq> 107" and w'all: "list_all (\<lambda>c. c < 128 \<and> c \<noteq> 107) w'"
    by simp_all
  have tail_case: "\<exists>pre m suf. c # cs' = pre @ m @ suf \<and> map ascii_lower m = w"
    if "substring_of w ?L"
    by (rule substring_of_Cons_tail) (rule IH[OF that step(3)])
  from eq[symmetric] have "\<exists>us. (pre0 = ?im @ us \<and> us @ (w @ suf0) = ?L) \<or>
      (pre0 @ us = ?im \<and> w @ suf0 = us @ ?L)"
    by (simp only: append_eq_append_conv2)
  then obtain us where us: "(pre0 = ?im @ us \<and> us @ (w @ suf0) = ?L) \<or>
      (pre0 @ us = ?im \<and> w @ suf0 = us @ ?L)"
    by (elim exE)
  show ?case
  proof (cases "pre0 = ?im @ us \<and> us @ (w @ suf0) = ?L")
    case True
    then have "?L = us @ w @ suf0" by simp
    then have "substring_of w ?L" unfolding substring_of_def by (intro exI)
    then show ?thesis by (rule tail_case)
  next
    case False
    with us have b: "pre0 @ us = ?im" "w @ suf0 = us @ ?L" by simp_all
    show ?thesis
    proof (cases "us = []")
      case True
      with b(2) have "?L = [] @ w @ suf0" by simp
      then have "substring_of w ?L" unfolding substring_of_def by (intro exI)
      then show ?thesis by (rule tail_case)
    next
      case usne: False
      then obtain u us' where u: "us = u # us'" by (cases us) simp_all
      with b(2) yw have uy: "u = y" and rest: "w' @ suf0 = us' @ ?L" by simp_all
      from b(1) u uy have yin: "y \<in> set ?im"
        by (metis in_set_conv_decomp)
      show ?thesis
      proof (cases "c < 128")
        case True
        then have "?im = [ascii_lower c]" by (simp add: lower_image_def)
        with b(1) u have "pre0 = []" "us = ?im"
          by (simp_all add: append_eq_Cons_conv)
        with b(2) have "lower_from table whole i (c # cs') = w @ suf0"
          unfolding lower_from_Cons_image by simp
        with ok w(1) w(2) pos have "\<exists>m suf. c # cs' = m @ suf \<and> map ascii_lower m = w"
          by (intro lower_from_prefix[where rest = suf0 and table = table and whole = whole and i = i]) simp_all
        then obtain m suf where "c # cs' = m @ suf" "map ascii_lower m = w"
          by (elim exE conjE)
        then have "c # cs' = [] @ m @ suf \<and> map ascii_lower m = w" by simp
        then show ?thesis by (intro exI)
      next
        case nonascii: False
        note img = lower_image_cases[OF ok pos nonascii]
        from img have dis: "list_all (\<lambda>c. 128 \<le> c) ?im \<or> ?im = [105, 775] \<or> ?im = [107]"
          by (rule conjunct2)
        from dis show ?thesis
        proof (elim disjE)
          assume "list_all (\<lambda>c. 128 \<le> c) ?im"
          with yin have "128 \<le> y" by (simp add: list_all_iff)
          with y show ?thesis by simp
        next
          assume t: "?im = [107]"
          with yin have "y = 107" by simp
          with y show ?thesis by simp
        next
          assume t: "?im = [105, 775]"
          with yin y have y105: "y = 105" by auto
          from b(1) u uy t have "pre0 @ (y # us') = [105, 775]" by simp
          with y105 have "us' = [775]"
            by (auto simp: append_eq_Cons_conv Cons_eq_append_conv)
          with rest have r: "w' @ suf0 = 775 # ?L" by simp
          show ?thesis
          proof (cases w')
            case Nil
            with yw y105 w(2) show ?thesis by simp
          next
            case (Cons e w'')
            with r have "e = 775" by simp
            with Cons w'all show ?thesis by simp
          qed
        qed
      qed
    qed
  qed
qed

text \<open>The two directions together, for the two words of the program.\<close>

lemma lower_occurs_iff:
  assumes ok: "lower_table_ok table"
    and w: "list_all (\<lambda>c. c < 128 \<and> c \<noteq> 107) (str word)" "last (str word) \<noteq> 105" "str word \<noteq> []"
  shows "substring_of (str word) (lower table t) \<longleftrightarrow> occurs_ignoring_case word t"
proof
  assume "substring_of (str word) (lower table t)"
  then have "substring_of (str word) (lower_from table t 0 t)" unfolding lower_def .
  with ok w have "\<exists>pre m suf. t = pre @ m @ suf \<and> map ascii_lower m = str word"
    by (intro lower_from_substring[where table = table and whole = t and i = 0]) simp_all
  then show "occurs_ignoring_case word t" unfolding occurs_ignoring_case_def .
next
  assume occ: "occurs_ignoring_case word t"
  from w(1) have "list_all (\<lambda>c. c < 128) (str word)" by (simp add: list_all_iff)
  then show "substring_of (str word) (lower table t)" using occ by (rule occurs_lower)
qed

lemma word_review: "list_all (\<lambda>c. c < 128 \<and> c \<noteq> 107) (str ''review'')"
  "last (str ''review'') \<noteq> 105" "str ''review'' \<noteq> []"
  by (simp_all add: str_def cp_def)

lemma word_experience: "list_all (\<lambda>c. c < 128 \<and> c \<noteq> 107) (str ''experience'')"
  "last (str ''experience'') \<noteq> 105" "str ''experience'' \<noteq> []"
  by (simp_all add: str_def cp_def)

section \<open>Sentiment\<close>

text \<open>
  C7. \<open>extract_sentiment\<close> returns the polarity of the sentiment library unchanged,
  and \<open>0\<close> when the library raises. So, for a library whose polarities lie in
  \<open>[-1, 1]\<close> and whose polarity of the empty text is \<open>0\<close>, the result lies in
  \<open>[-1, 1]\<close> for every text, it is \<open>0\<close> for the empty text, and whenever the
  library raises the result is \<open>0\<close> with one error line logged and nothing raised.
\<close>

theorem extract_sentiment_bounded:
  assumes "polarity_in_range polarity"
  shows "- 1 \<le> fst (extract_sentiment polarity text) \<and> fst (extract_sentiment polarity text) \<le> 1 \<and>
         fst (extract_sentiment polarity []) = 0 \<and>
         (polarity text = None \<longrightarrow> extract_sentiment polarity text = (0, [Sentiment_error]))"
proof -
  from assms have rng: "\<And>t v. polarity t = Some v \<Longrightarrow> - 1 \<le> v \<and> v \<le> 1"
    unfolding polarity_in_range_def by blast
  from assms have emp: "polarity [] = Some 0 \<or> polarity [] = None"
    by (simp add: polarity_in_range_def)
  have "- 1 \<le> fst (extract_sentiment polarity text) \<and> fst (extract_sentiment polarity text) \<le> 1"
    using rng[of "text"] by (cases "polarity text") (simp_all add: extract_sentiment_def)
  moreover have "fst (extract_sentiment polarity []) = 0"
    using emp by (auto simp: extract_sentiment_def)
  moreover have "polarity text = None \<longrightarrow> extract_sentiment polarity text = (0, [Sentiment_error])"
    by (simp add: extract_sentiment_def)
  ultimately show ?thesis by blast
qed

text \<open>A model that raises on one text: the result there is \<open>0\<close>.\<close>

theorem extract_sentiment_bounded_witness:
  "polarity_in_range (\<lambda>t. if t = [] then Some 0 else if t = str ''bad input'' then None else Some (1 / 2)) \<and>
   fst (extract_sentiment (\<lambda>t. if t = [] then Some 0 else if t = str ''bad input'' then None else Some (1 / 2)) (str ''bad input'')) = 0 \<and>
   - 1 \<le> fst (extract_sentiment (\<lambda>t. if t = [] then Some 0 else if t = str ''bad input'' then None else Some (1 / 2)) (str ''good'')) \<and>
   fst (extract_sentiment (\<lambda>t. if t = [] then Some 0 else if t = str ''bad input'' then None else Some (1 / 2)) (str ''good'')) \<le> 1"
proof -
  let ?p = "\<lambda>t. if t = [] then Some 0 else if t = str ''bad input'' then None else Some (1 / 2 :: real)"
  have c: "polarity_in_range ?p"
    by (simp add: polarity_in_range_def)
  from extract_sentiment_bounded [OF c, of "str ''bad input''"] extract_sentiment_bounded [OF c, of "str ''good''"] c
  show ?thesis by (simp add: str_def)
qed

section \<open>The normalizer\<close>

lemma startswith_iff: "startswith s w \<longleftrightarrow> (\<exists>suf. s = w @ suf)"
proof
  assume "startswith s w"
  then have "s = w @ drop (length w) s"
    unfolding startswith_def by (metis append_take_drop_id)
  then show "\<exists>suf. s = w @ suf" ..
next
  assume "\<exists>suf. s = w @ suf"
  then show "startswith s w" by (auto simp: startswith_def)
qed

lemma str_contains_iff: "str_contains w s \<longleftrightarrow> substring_of w s"
proof (induction s)
  case Nil
  show ?case by (auto simp: substring_of_def)
next
  case (Cons x xs)
  have "substring_of w (x # xs) \<longleftrightarrow> (\<exists>suf. x # xs = w @ suf) \<or> substring_of w xs"
    unfolding substring_of_def
    using substring_Cons[of x xs "\<lambda>u. u = w"] by simp
  with Cons show ?case by (simp add: startswith_iff)
qed

lemma classify_title_iff:
  "classify_title table t =
     (if substring_of (str ''review'') (lower table t) \<or> substring_of (str ''experience'') (lower table t)
      then ''review'' else ''discussion'')"
  by (simp add: classify_title_def str_contains_iff)

lemma process_post_Some:
  assumes "process_post polarity table post = (Some d, logged)"
  shows "\<exists>display_name created t. rp_subreddit post = Some display_name \<and>
           fromtimestamp_utc (rp_created_utc post) = Some created \<and> rp_title post = Some t \<and>
           d = \<lparr> reddit_id = rp_id post, subreddit = display_name, title = t,
                 content = rp_selftext post, author = str_of_author (rp_author post),
                 url = ''https://reddit.com'' @ rp_permalink post, created_utc = created,
                 score = rp_score post, upvote_ratio = rp_upvote_ratio post,
                 num_comments = rp_num_comments post, post_type = classify_title table t,
                 sentiment_score = fst (extract_sentiment polarity (t @ str '' '' @ rp_selftext post)),
                 extracted_vendor_name = extract_vendor_name (t @ str '' '' @ rp_selftext post),
                 processed = False \<rparr>"
  using assms
  by (auto simp: process_post_def build_record_def Let_def split: option.splits prod.splits)

lemma process_post_None:
  "fst (process_post polarity table post) = None \<longleftrightarrow>
     rp_subreddit post = None \<or> fromtimestamp_utc (rp_created_utc post) = None \<or> rp_title post = None"
  by (auto simp: process_post_def build_record_def Let_def split: option.splits prod.splits)

lemma process_post_example:
  "process_post (\<lambda>t. Some 0) table
     \<lparr> rp_id = rid, rp_subreddit = Some ''thca'', rp_title = Some t, rp_selftext = body,
       rp_author = a, rp_permalink = ''/r/thca/a1'', rp_created_utc = Some 1700000000,
       rp_score = 3, rp_upvote_ratio = 1, rp_num_comments = 0 \<rparr> =
   (Some \<lparr> reddit_id = rid, subreddit = ''thca'', title = t, content = body,
            author = str_of_author a, url = ''https://reddit.com/r/thca/a1'',
            created_utc = 1700000000, score = 3, upvote_ratio = 1, num_comments = 0,
            post_type = classify_title table t, sentiment_score = 0,
            extracted_vendor_name = extract_vendor_name (t @ str '' '' @ body), processed = False \<rparr>, [])"
  by (simp add: process_post_def build_record_def fromtimestamp_utc_def extract_sentiment_def)

lemmas contains_eval = str_contains_iff [symmetric] lower_def lower_image_def startswith_def char_eval

lemma lower_table_ok_identity: "lower_table_ok (\<lambda>whole i. [whole ! i])"
  by (simp add: lower_table_ok_def)

text \<open>
  C6. For every raw post that is normalized, \<open>post_type\<close> is \<open>review\<close> exactly when
  the lower-cased title contains \<open>review\<close> or \<open>experience\<close> as a substring, and
  \<open>discussion\<close> otherwise. The comparison ignores the case of the title: a title in
  which one of the two words occurs in any mix of upper and lower case gives \<open>review\<close>;
  and, with the lower-case images of the Unicode database, \<open>post_type\<close> is \<open>review\<close>
  exactly for these titles.
\<close>

theorem post_type_review_or_discussion:
  assumes "process_post polarity table post = (Some post_data, logged)"
  shows "rp_title post = Some (title post_data) \<and>
         post_type post_data =
           (if substring_of (str ''review'') (lower table (title post_data)) \<or>
               substring_of (str ''experience'') (lower table (title post_data))
            then ''review'' else ''discussion'') \<and>
         (occurs_ignoring_case ''review'' (title post_data) \<or>
          occurs_ignoring_case ''experience'' (title post_data) \<longrightarrow>
            post_type post_data = ''review'') \<and>
         (lower_table_ok table \<longrightarrow>
            post_type post_data =
              (if occurs_ignoring_case ''review'' (title post_data) \<or>
                  occurs_ignoring_case ''experience'' (title post_data)
               then ''review'' else ''discussion''))"
proof -
  from process_post_Some[OF assms]
  have t: "rp_title post = Some (title post_data)"
    and p: "post_type post_data = classify_title table (title post_data)"
    by auto
  let ?t = "title post_data"
  have c: "classify_title table ?t =
      (if substring_of (str ''review'') (lower table ?t) \<or>
          substring_of (str ''experience'') (lower table ?t)
       then ''review'' else ''discussion'')"
    by (rule classify_title_iff)
  have up: "classify_title table ?t = ''review''"
    if "occurs_ignoring_case ''review'' ?t \<or> occurs_ignoring_case ''experience'' ?t"
  proof -
    from that have "substring_of (str ''review'') (lower table ?t) \<or>
        substring_of (str ''experience'') (lower table ?t)"
    proof
      assume "occurs_ignoring_case ''review'' ?t"
      with word_review(1) have "substring_of (str ''review'') (lower table ?t)"
        by (intro occurs_lower) (simp_all add: list_all_iff)
      then show ?thesis ..
    next
      assume "occurs_ignoring_case ''experience'' ?t"
      with word_experience(1) have "substring_of (str ''experience'') (lower table ?t)"
        by (intro occurs_lower) (simp_all add: list_all_iff)
      then show ?thesis ..
    qed
    with c show ?thesis by simp
  qed
  have iff: "classify_title table ?t =
      (if occurs_ignoring_case ''review'' ?t \<or> occurs_ignoring_case ''experience'' ?t
       then ''review'' else ''discussion'')"
    if ok: "lower_table_ok table"
    unfolding c lower_occurs_iff[OF ok word_review] lower_occurs_iff[OF ok word_experience] ..
  from t p c up iff show ?thesis by simp
qed

text \<open>
  The two titles of the specification: \<open>Great review of XYZ\<close> gives \<open>review\<close>, and
  \<open>Just a discussion thread\<close>, in which neither word occurs, gives \<open>discussion\<close>. A
  title in upper case, \<open>GREAT REVIEW\<close>, gives \<open>review\<close>. With a dotted capital I in
  place of the \<open>I\<close>, the lower-cased title holds a combining dot after the \<open>i\<close>, and
  the post is a \<open>discussion\<close>.
\<close>

theorem post_type_review_or_discussion_witness:
  "lower_table_ok (\<lambda>whole i. [whole ! i]) \<and>
   (\<exists>d l. process_post (\<lambda>t. Some 0) (\<lambda>whole i. [whole ! i])
       \<lparr> rp_id = ''a1'', rp_subreddit = Some ''thca'', rp_title = Some (str ''Great review of XYZ''),
         rp_selftext = [], rp_author = Some ''bob'', rp_permalink = ''/r/thca/a1'',
         rp_created_utc = Some 1700000000, rp_score = 3, rp_upvote_ratio = 1,
         rp_num_comments = 0 \<rparr> = (Some d, l) \<and> post_type d = ''review'') \<and>
   (\<exists>d l. process_post (\<lambda>t. Some 0) (\<lambda>whole i. [whole ! i])
       \<lparr> rp_id = ''a1'', rp_subreddit = Some ''thca'', rp_title = Some (str ''Just a discussion thread''),
         rp_selftext = [], rp_author = Some ''bob'', rp_permalink = ''/r/thca/a1'',
         rp_created_utc = Some 1700000000, rp_score = 3, rp_upvote_ratio = 1,
         rp_num_comments = 0 \<rparr> = (Some d, l) \<and>
       \<not> occurs_ignoring_case ''review'' (title d) \<and> \<not> occurs_ignoring_case ''experience'' (title d) \<and>
       post_type d = ''discussion'') \<and>
   (\<exists>d l. process_post (\<lambda>t. Some 0) (\<lambda>whole i. [whole ! i])
       \<lparr> rp_id = ''a1'', rp_subreddit = Some ''thca'', rp_title = Some (str ''GREAT REVIEW''),
         rp_selftext = [], rp_author = Some ''bob'', rp_permalink = ''/r/thca/a1'',
         rp_created_utc = Some 1700000000, rp_score = 3, rp_upvote_ratio = 1,
         rp_num_comments = 0 \<rparr> = (Some d, l) \<and>
       occurs_ignoring_case ''review'' (title d) \<and> post_type d = ''review'') \<and>
   (\<exists>d l. process_post (\<lambda>t. Some 0) (\<lambda>whole i. [whole ! i])
       \<lparr> rp_id = ''a1'', rp_subreddit = Some ''thca'', rp_title = Some (str ''GREAT REV'' @ [304] @ str ''EW''),
         rp_selftext = [], rp_author = Some ''bob'', rp_permalink = ''/r/thca/a1'',
         rp_created_utc = Some 1700000000, rp_score = 3, rp_upvote_ratio = 1,
         rp_num_comments = 0 \<rparr> = (Some d, l) \<and>
       lower (\<lambda>whole i. [whole ! i]) (title d) = str ''great revi'' @ [775] @ str ''ew'' \<and>
       post_type d = ''discussion'')"
proof -
  let ?tab = "\<lambda>(whole::ustring) i. [whole ! i]"
  let ?t1 = "str ''Great review of XYZ''"
  let ?t2 = "str ''Just a discussion thread''"
  let ?t3 = "str ''GREAT REVIEW''"
  let ?t4 = "str ''GREAT REV'' @ [304] @ str ''EW''"
  note ok = lower_table_ok_identity
  note e1 = process_post_example [of ?tab "''a1''" ?t1 "[]" "Some ''bob''"]
  note e2 = process_post_example [of ?tab "''a1''" ?t2 "[]" "Some ''bob''"]
  note e3 = process_post_example [of ?tab "''a1''" ?t3 "[]" "Some ''bob''"]
  note e4 = process_post_example [of ?tab "''a1''" ?t4 "[]" "Some ''bob''"]
  note th1 = post_type_review_or_discussion [OF e1]
  note th2 = post_type_review_or_discussion [OF e2]
  note th3 = post_type_review_or_discussion [OF e3]
  note th4 = post_type_review_or_discussion [OF e4]
  have r1: "substring_of (str ''review'') (lower ?tab ?t1)"
    by (simp add: contains_eval)
  have r2: "\<not> substring_of (str ''review'') (lower ?tab ?t2)"
    "\<not> substring_of (str ''experience'') (lower ?tab ?t2)"
    by (simp_all add: contains_eval)
  have r4: "\<not> substring_of (str ''review'') (lower ?tab ?t4)"
    "\<not> substring_of (str ''experience'') (lower ?tab ?t4)"
    "lower ?tab ?t4 = str ''great revi'' @ [775] @ str ''ew''"
    by (simp_all add: contains_eval)
  have "?t3 = str ''GREAT '' @ str ''REVIEW'' @ [] \<and> map ascii_lower (str ''REVIEW'') = str ''review''"
    by (simp add: str_def cp_def ascii_lower_def)
  then have o3: "occurs_ignoring_case ''review'' ?t3"
    unfolding occurs_ignoring_case_def by (intro exI)
  have n2: "\<not> occurs_ignoring_case ''review'' ?t2" "\<not> occurs_ignoring_case ''experience'' ?t2"
    using r2 lower_occurs_iff[OF ok word_review, of ?t2] lower_occurs_iff[OF ok word_experience, of ?t2]
    by simp_all
  have p1: "post_type (the (fst (process_post (\<lambda>t. Some 0) ?tab
       \<lparr> rp_id = ''a1'', rp_subreddit = Some ''thca'', rp_title = Some ?t1,
         rp_selftext = [], rp_author = Some ''bob'', rp_permalink = ''/r/thca/a1'',
         rp_created_utc = Some 1700000000, rp_score = 3, rp_upvote_ratio = 1,
         rp_num_comments = 0 \<rparr>))) = ''review''"
    using th1 r1 unfolding e1 by simp
  have p2: "post_type (the (fst (process_post (\<lambda>t. Some 0) ?tab
       \<lparr> rp_id = ''a1'', rp_subreddit = Some ''thca'', rp_title = Some ?t2,
         rp_selftext = [], rp_author = Some ''bob'', rp_permalink = ''/r/thca/a1'',
         rp_created_utc = Some 1700000000, rp_score = 3, rp_upvote_ratio = 1,
         rp_num_comments = 0 \<rparr>))) = ''discussion''"
    using th2 [THEN conjunct2, THEN conjunct2, THEN conjunct2, rule_format, OF ok] n2
    unfolding e2 by simp
  have p3: "post_type (the (fst (process_post (\<lambda>t. Some 0) ?tab
       \<lparr> rp_id = ''a1'', rp_subreddit = Some ''thca'', rp_title = Some ?t3,
         rp_selftext = [], rp_author = Some ''bob'', rp_permalink = ''/r/thca/a1'',
         rp_created_utc = Some 1700000000, rp_score = 3, rp_upvote_ratio = 1,
         rp_num_comments = 0 \<rparr>))) = ''review''"
    using th3 [THEN conjunct2, THEN conjunct2, THEN conjunct1, rule_format] o3
    unfolding e3 by simp
  have p4: "post_type (the (fst (process_post (\<lambda>t. Some 0) ?tab
       \<lparr> rp_id = ''a1'', rp_subreddit = Some ''thca'', rp_title = Some ?t4,
         rp_selftext = [], rp_author = Some ''bob'', rp_permalink = ''/r/thca/a1'',
         rp_created_utc = Some 1700000000, rp_score = 3, rp_upvote_ratio = 1,
         rp_num_comments = 0 \<rparr>))) = ''discussion''"
    using th4 [THEN conjunct2, THEN conjunct1] r4(1,2)
    unfolding e4 by simp
  from ok p1 p2 p3 p4 n2 o3 r4(3) show ?thesis
    unfolding e1 e2 e3 e4 by simp
qed

text \<open>
  C9. For every raw post whose author is absent, the record that the normalizer
  produces has the author \<open>None\<close>, the four-letter string that \<open>str\<close> gives for the
  absent value; and whether a record is produced does not depend on the author.
\<close>

theorem author_sentinel:
  assumes "rp_author post = None"
  shows "(\<forall>post_data logged. process_post polarity table post = (Some post_data, logged) \<longrightarrow>
            author post_data = ''None'') \<and>
         (fst (process_post polarity table post) = None \<longleftrightarrow>
            rp_subreddit post = None \<or> fromtimestamp_utc (rp_created_utc post) = None \<or>
            rp_title post = None)"
proof -
  have "author post_data = ''None''" if "process_post polarity table post = (Some post_data, logged)"
    for post_data logged
    using process_post_Some[OF that] assms by (auto simp: str_of_author_def)
  then show ?thesis using process_post_None[of polarity table post] by blast
qed

text \<open>A post of a deleted author is normalized, with the sentinel as its author.\<close>

theorem author_sentinel_witness:
  "\<exists>d l. process_post (\<lambda>t. Some 0) (\<lambda>whole i. [whole ! i])
       \<lparr> rp_id = ''a1'', rp_subreddit = Some ''thca'', rp_title = Some (str ''Gone''),
         rp_selftext = str ''text'', rp_author = None, rp_permalink = ''/r/thca/a1'',
         rp_created_utc = Some 1700000000, rp_score = 3, rp_upvote_ratio = 1,
         rp_num_comments = 0 \<rparr> = (Some d, l) \<and> author d = ''None''"
proof -
  note e = process_post_example [of "\<lambda>whole i. [whole ! i]" "''a1''" "str ''Gone''" "str ''text''" None]
  have "rp_author \<lparr> rp_id = ''a1'', rp_subreddit = Some ''thca'', rp_title = Some (str ''Gone''),
         rp_selftext = str ''text'', rp_author = None, rp_permalink = ''/r/thca/a1'',
         rp_created_utc = Some 1700000000, rp_score = 3, rp_upvote_ratio = 1,
         rp_num_comments = 0 \<rparr> = None" by simp
  from author_sentinel [OF this, of "\<lambda>t. Some 0" "\<lambda>whole i. [whole ! i]"] e show ?thesis by blast
qed

section \<open>The start-up check\<close>

lemma substring_of_join:
  "v \<in> set xs \<Longrightarrow> substring_of v (join sep xs)"
proof (induction sep xs rule: join.induct)
  case (1 sep)
  then show ?case by simp
next
  case (2 sep x)
  then have "join sep [x] = [] @ v @ []" by simp
  then show ?case unfolding substring_of_def by blast
next
  case (3 sep x y ys)
  show ?case
  proof (cases "v = x")
    case True
    then have "join sep (x # y # ys) = [] @ v @ (sep @ join sep (y # ys))" by simp
    then show ?thesis unfolding substring_of_def by blast
  next
    case False
    with 3 have "substring_of v (join sep (y # ys))" by simp
    then obtain pre suf where "join sep (y # ys) = pre @ v @ suf"
      unfolding substring_of_def by blast
    then have "join sep (x # y # ys) = (x @ sep @ pre) @ v @ suf" by simp
    then show ?thesis unfolding substring_of_def by blast
  qed
qed

lemma substring_of_append: "substring_of v s \<Longrightarrow> substring_of v (p @ s)"
proof -
  assume "substring_of v s"
  then obtain pre suf where "s = pre @ v @ suf" unfolding substring_of_def by blast
  then have "p @ s = (p @ pre) @ v @ suf" by simp
  then show ?thesis unfolding substring_of_def by blast
qed

text \<open>
  C8. A required variable is missing when it is unset or set to the empty string.
  \<open>check_environment\<close> succeeds exactly when none of the four required variables is
  missing. Otherwise it fails with one error, whose message lists all the missing
  variables in the order of the list of required ones, so every missing name occurs
  in it, not only the first.
\<close>

theorem check_environment_reports_all:
  "(check_environment getenv = Inr () \<longleftrightarrow> (\<forall>var \<in> set required_vars. \<not> not_set getenv var)) \<and>
   ((\<exists>var \<in> set required_vars. not_set getenv var) \<longrightarrow>
      check_environment getenv =
        Inl (EnvironmentError (''Missing required environment variables: '' @
               join '', '' (filter (not_set getenv) required_vars)))) \<and>
   (\<forall>var \<in> set required_vars. not_set getenv var \<longrightarrow>
      (\<exists>message. check_environment getenv = Inl (EnvironmentError message) \<and>
         substring_of var message))"
proof -
  let ?missing = "filter (not_set getenv) required_vars"
  have ok: "check_environment getenv = Inr () \<longleftrightarrow> (\<forall>var \<in> set required_vars. \<not> not_set getenv var)"
    by (auto simp: check_environment_def Let_def filter_empty_conv)
  have err: "check_environment getenv =
        Inl (EnvironmentError (''Missing required environment variables: '' @ join '', '' ?missing))"
    if "\<exists>var \<in> set required_vars. not_set getenv var"
    using that by (auto simp: check_environment_def Let_def filter_empty_conv)
  have all: "\<exists>message. check_environment getenv = Inl (EnvironmentError message) \<and>
         substring_of var message"
    if "var \<in> set required_vars" "not_set getenv var" for var
  proof -
    from that have "var \<in> set ?missing" by simp
    then have "substring_of var (''Missing required environment variables: '' @ join '', '' ?missing)"
      by (intro substring_of_append substring_of_join)
    moreover from that have "\<exists>var \<in> set required_vars. not_set getenv var" by blast
    ultimately show ?thesis using err by blast
  qed
  from ok err all show ?thesis by blast
qed

text \<open>
  With the first variable unset and the last one empty, the message names both; with
  all four set, the check passes.
\<close>

theorem check_environment_reports_all_witness:
  "check_environment (map_of [(''SUPABASE_SERVICE_ROLE_KEY'', ''k''), (''REDDIT_CLIENT_ID'', ''i''),
        (''REDDIT_CLIENT_SECRET'', [])]) =
     Inl (EnvironmentError ''Missing required environment variables: SUPABASE_URL, REDDIT_CLIENT_SECRET'') \<and>
   substring_of ''REDDIT_CLIENT_SECRET''
     ''Missing required environment variables: SUPABASE_URL, REDDIT_CLIENT_SECRET'' \<and>
   check_environment (map_of [(''SUPABASE_URL'', ''u''), (''SUPABASE_SERVICE_ROLE_KEY'', ''k''),
        (''REDDIT_CLIENT_ID'', ''i''), (''REDDIT_CLIENT_SECRET'', ''s'')]) = Inr ()"
proof -
  let ?e1 = "map_of [(''SUPABASE_SERVICE_ROLE_KEY'', ''k''), (''REDDIT_CLIENT_ID'', ''i''),
        (''REDDIT_CLIENT_SECRET'', [])]"
  let ?e2 = "map_of [(''SUPABASE_URL'', ''u''), (''SUPABASE_SERVICE_ROLE_KEY'', ''k''),
        (''REDDIT_CLIENT_ID'', ''i''), (''REDDIT_CLIENT_SECRET'', ''s'')]"
  have m1: "filter (not_set ?e1) required_vars = [''SUPABASE_URL'', ''REDDIT_CLIENT_SECRET'']"
    by (simp add: required_vars_def not_set_def)
  have s1: "''REDDIT_CLIENT_SECRET'' \<in> set required_vars" "not_set ?e1 ''REDDIT_CLIENT_SECRET''"
    by (simp_all add: required_vars_def not_set_def)
  have p2: "\<forall>var \<in> set required_vars. \<not> not_set ?e2 var"
    by (simp add: required_vars_def not_set_def)
  from check_environment_reports_all [of ?e1] s1 m1
  have "check_environment ?e1 =
     Inl (EnvironmentError ''Missing required environment variables: SUPABASE_URL, REDDIT_CLIENT_SECRET'')"
    by auto
  moreover from check_environment_reports_all [of ?e1] s1 this
  have "substring_of ''REDDIT_CLIENT_SECRET''
     ''Missing required environment variables: SUPABASE_URL, REDDIT_CLIENT_SECRET''"
    by auto
  moreover from check_environment_reports_all [of ?e2] p2
  have "check_environment ?e2 = Inr ()" by blast
  ultimately show ?thesis by blast
qed

section \<open>The scan of a forum\<close>

lemma reddit_posts_logs [simp]: "reddit_posts (logs events st) = reddit_posts st"
  by (simp add: logs_def)

lemma log_lines_logs [simp]: "log_lines (logs events st) = log_lines st @ events"
  by (simp add: logs_def)

lemma process_post_reddit_id:
  "process_post polarity table post = (Some d, logged) \<Longrightarrow> reddit_id d = rp_id post"
  using process_post_Some by fastforce

lemma select_empty_iff:
  "select_by_reddit_id rid rows = [] \<longleftrightarrow> rid \<notin> set (map reddit_id rows)"
  by (auto simp: select_by_reddit_id_def filter_empty_conv)

text \<open>One iteration either leaves the table as it is or appends one row with a new identifier.\<close>

lemma scrape_post_cases:
  "reddit_posts (scrape_post polarity table name post f st) = reddit_posts st \<or>
   (\<exists>d logged. f = No_fault \<and> rp_id post \<notin> set (map reddit_id (reddit_posts st)) \<and>
      process_post polarity table post = (Some d, logged) \<and>
      reddit_posts (scrape_post polarity table name post f st) = reddit_posts st @ [d])"
proof (cases "f = Select_fails \<or> select_by_reddit_id (rp_id post) (reddit_posts st) \<noteq> []")
  case True
  then show ?thesis by (auto simp: scrape_post_def)
next
  case False
  then have new: "rp_id post \<notin> set (map reddit_id (reddit_posts st))" and f: "f \<noteq> Select_fails"
    by (simp_all add: select_empty_iff)
  obtain r logged where pp: "process_post polarity table post = (r, logged)" by (cases "process_post polarity table post")
  show ?thesis
  proof (cases r)
    case None
    with pp False show ?thesis by (simp add: scrape_post_def)
  next
    case (Some d)
    show ?thesis
    proof (cases "f = Insert_fails")
      case True
      with pp Some False show ?thesis by (simp add: scrape_post_def)
    next
      case nf: False
      with f have "f = No_fault" by (cases f) simp_all
      moreover from pp Some False nf
      have "reddit_posts (scrape_post polarity table name post f st) = reddit_posts st @ [d]"
        by (simp add: scrape_post_def)
      ultimately show ?thesis using new pp Some by blast
    qed
  qed
qed


lemma scrape_post_extends:
  "\<exists>new. reddit_posts (scrape_post polarity table name post f st) = reddit_posts st @ new"
  using scrape_post_cases[of polarity table name post f st] by auto


lemma scrape_posts_extends:
  "\<exists>new. reddit_posts (scrape_posts polarity table name fetched st) = reddit_posts st @ new"
proof (induction fetched arbitrary: st)
  case Nil
  show ?case by simp
next
  case (Cons a fetched)
  obtain post f where a: "a = (post, f)" by (cases a)
  obtain n1 where n1: "reddit_posts (scrape_post polarity table name post f st) = reddit_posts st @ n1"
    using scrape_post_extends by blast
  obtain n2 where "reddit_posts (scrape_posts polarity table name fetched (scrape_post polarity table name post f st)) =
      reddit_posts (scrape_post polarity table name post f st) @ n2"
    using Cons.IH by blast
  with n1 have "reddit_posts (scrape_posts polarity table name (a # fetched) st) = reddit_posts st @ (n1 @ n2)"
    unfolding a by simp
  then show ?case ..
qed



lemma scrape_post_No_fault_settles:
  "rp_id post \<in> set (map reddit_id (reddit_posts (scrape_post polarity table name post No_fault st))) \<or>
   fst (process_post polarity table post) = None"
proof (cases "rp_id post \<in> set (map reddit_id (reddit_posts st))")
  case True
  then show ?thesis using scrape_post_extends[of polarity table name post No_fault st] by auto
next
  case False
  then have sel: "select_by_reddit_id (rp_id post) (reddit_posts st) = []"
    by (simp add: select_empty_iff)
  obtain r logged where pp: "process_post polarity table post = (r, logged)" by (cases "process_post polarity table post")
  show ?thesis
  proof (cases r)
    case None
    with pp show ?thesis by simp
  next
    case (Some d)
    with pp have "reddit_id d = rp_id post" by (auto dest: process_post_reddit_id)
    with pp Some sel show ?thesis by (simp add: scrape_post_def)
  qed
qed

lemma scrape_posts_mono:
  "set (map reddit_id (reddit_posts st)) \<subseteq> set (map reddit_id (reddit_posts (scrape_posts polarity table name fetched st)))"
  using scrape_posts_extends[of polarity table name fetched st] by auto


lemma reddit_posts_scrape_subreddit_data:
  "reddit_posts (scrape_subreddit_data polarity table name fetched listing_fails st) =
   reddit_posts (scrape_posts polarity table name fetched (logs [Scrape_start name] st))"
  by (simp add: scrape_subreddit_data_def Let_def)

lemma scrape_posts_append:
  "scrape_posts polarity table name (xs @ ys) st = scrape_posts polarity table name ys (scrape_posts polarity table name xs st)"
proof (induction xs arbitrary: st)
  case Nil
  show ?case by simp
next
  case (Cons a xs)
  obtain post f where a: "a = (post, f)" by (cases a)
  show ?case unfolding a by (simp add: Cons.IH)
qed

lemma scrape_post_table_only:
  assumes "reddit_posts st = reddit_posts st'"
  shows "reddit_posts (scrape_post polarity table name post f st) = reddit_posts (scrape_post polarity table name post f st')"
proof -
  obtain r logged where pp: "process_post polarity table post = (r, logged)"
    by (cases "process_post polarity table post")
  show ?thesis
  proof (cases r)
    case None
    with pp assms show ?thesis by (simp add: scrape_post_def)
  next
    case (Some d)
    with pp assms show ?thesis by (simp add: scrape_post_def)
  qed
qed

lemma scrape_posts_table_only:
  "reddit_posts st = reddit_posts st' \<Longrightarrow>
   reddit_posts (scrape_posts polarity table name fetched st) = reddit_posts (scrape_posts polarity table name fetched st')"
proof (induction fetched arbitrary: st st')
  case Nil
  then show ?case by simp
next
  case (Cons a fetched)
  obtain post f where a: "a = (post, f)" by (cases a)
  from Cons.prems have "reddit_posts (scrape_post polarity table name post f st) =
      reddit_posts (scrape_post polarity table name post f st')"
    by (rule scrape_post_table_only)
  then have "reddit_posts (scrape_posts polarity table name fetched (scrape_post polarity table name post f st)) =
      reddit_posts (scrape_posts polarity table name fetched (scrape_post polarity table name post f st'))"
    by (rule Cons.IH)
  then show ?case unfolding a by simp
qed

lemma scrape_post_failure_same:
  assumes "f = Select_fails \<or> fst (process_post polarity table post) = None \<or> f = Insert_fails"
  shows "reddit_posts (scrape_post polarity table name post f st) = reddit_posts st"
  using scrape_post_cases[of polarity table name post f st] assms by auto

lemma log_lines_scrape_post:
  "\<exists>more. log_lines (scrape_post polarity table name post f st) = log_lines st @ more"
  by (auto simp: scrape_post_def split: option.splits prod.splits)

lemma log_lines_scrape_posts:
  "\<exists>more. log_lines (scrape_posts polarity table name fetched st) = log_lines st @ more"
proof (induction fetched arbitrary: st)
  case Nil
  show ?case by simp
next
  case (Cons a fetched)
  obtain post f where a: "a = (post, f)" by (cases a)
  obtain m1 where m1: "log_lines (scrape_post polarity table name post f st) = log_lines st @ m1"
    using log_lines_scrape_post by blast
  obtain m2 where "log_lines (scrape_posts polarity table name fetched (scrape_post polarity table name post f st)) =
      log_lines (scrape_post polarity table name post f st) @ m2"
    using Cons.IH by blast
  with m1 have "log_lines (scrape_posts polarity table name (a # fetched) st) = log_lines st @ (m1 @ m2)"
    unfolding a by simp
  then show ?case ..
qed

text \<open>A failure that happens while a post is handled leaves an error line.\<close>

lemma scrape_post_failure_logged:
  assumes "f = Select_fails \<or>
      (rp_id post \<notin> set (map reddit_id (reddit_posts st)) \<and>
         (fst (process_post polarity table post) = None \<or> f = Insert_fails))"
  shows "Post_error \<in> set (log_lines (scrape_post polarity table name post f st)) \<or>
         Process_error (rp_id post) \<in> set (log_lines (scrape_post polarity table name post f st))"
proof (cases "f = Select_fails")
  case True
  then show ?thesis by (simp add: scrape_post_def)
next
  case False
  with assms have new: "select_by_reddit_id (rp_id post) (reddit_posts st) = []"
    and bad: "fst (process_post polarity table post) = None \<or> f = Insert_fails"
    by (simp_all add: select_empty_iff)
  obtain r logged where pp: "process_post polarity table post = (r, logged)" by (cases "process_post polarity table post")
  show ?thesis
  proof (cases r)
    case None
    with pp have "logged = [Process_error (rp_id post)]"
      by (auto simp: process_post_def split: option.splits prod.splits)
    with pp None new False show ?thesis by (simp add: scrape_post_def)
  next
    case (Some d)
    with pp bad have "f = Insert_fails" by simp
    with pp Some new show ?thesis by (simp add: scrape_post_def)
  qed
qed

lemma scrape_posts_item_settles:
  assumes "(q, No_fault) \<in> set fetched"
  shows "rp_id q \<in> set (map reddit_id (reddit_posts (scrape_posts polarity table name fetched st))) \<or>
         fst (process_post polarity table q) = None"
  using assms
proof (induction fetched arbitrary: st)
  case Nil
  then show ?case by simp
next
  case (Cons a fetched)
  obtain post f where a: "a = (post, f)" by (cases a)
  show ?case
  proof (cases "(q, No_fault) = a")
    case True
    with a have pf: "post = q" "f = No_fault" by simp_all
    let ?st = "scrape_post polarity table name q No_fault st"
    show ?thesis
      using scrape_post_No_fault_settles[of q polarity table name st]
        scrape_posts_mono[of ?st polarity table name fetched]
      unfolding a pf by auto
  next
    case False
    with Cons.prems have "(q, No_fault) \<in> set fetched" by auto
    then have "rp_id q \<in> set (map reddit_id (reddit_posts
          (scrape_posts polarity table name fetched (scrape_post polarity table name post f st)))) \<or>
        fst (process_post polarity table q) = None"
      by (rule Cons.IH)
    then show ?thesis unfolding a by simp
  qed
qed

lemmas scrape_eval = scrape_subreddit_data_def scrape_post_def select_by_reddit_id_def logs_def
  Let_def process_post_example



lemma process_post_no_title:
  "process_post polarity table
     \<lparr> rp_id = rid, rp_subreddit = s, rp_title = None, rp_selftext = body,
       rp_author = a, rp_permalink = l, rp_created_utc = c,
       rp_score = n, rp_upvote_ratio = u, rp_num_comments = k \<rparr> = (None, [Process_error rid])"
  by (simp add: process_post_def build_record_def split: option.splits)

text \<open>
  C5. When the existence check, the normalization or the insert fails for one post of
  a batch, the table after the scan is the table that the scan of the batch without
  that post gives: only that post is skipped. Every other post of the batch that is
  well-formed and handled without a failure of the table is in the table after the
  scan. If the failure happens (the check raises, or the post is new and cannot be
  normalized or inserted), an error line is in the log.
\<close>

theorem scrape_failure_skips_one_post:
  assumes "f = Select_fails \<or> fst (process_post polarity table post) = None \<or> f = Insert_fails"
  shows "reddit_posts (scrape_subreddit_data polarity table name (before @ (post, f) # after) listing_fails st) =
         reddit_posts (scrape_subreddit_data polarity table name (before @ after) listing_fails st) \<and>
         (\<forall>(q, g) \<in> set (before @ after). g = No_fault \<and> fst (process_post polarity table q) \<noteq> None \<longrightarrow>
            rp_id q \<in> set (map reddit_id (reddit_posts
              (scrape_subreddit_data polarity table name (before @ (post, f) # after) listing_fails st)))) \<and>
         (f = Select_fails \<or>
          (rp_id post \<notin> set (map reddit_id (reddit_posts
              (scrape_subreddit_data polarity table name before False st))) \<and>
           (fst (process_post polarity table post) = None \<or> f = Insert_fails)) \<longrightarrow>
            Post_error \<in> set (log_lines
              (scrape_subreddit_data polarity table name (before @ (post, f) # after) listing_fails st)) \<or>
            Process_error (rp_id post) \<in> set (log_lines
              (scrape_subreddit_data polarity table name (before @ (post, f) # after) listing_fails st)))"
proof -
  let ?st0 = "logs [Scrape_start name] st"
  let ?stx = "scrape_posts polarity table name before ?st0"
  let ?sty = "scrape_post polarity table name post f ?stx"
  let ?all = "before @ (post, f) # after"
  let ?fin = "scrape_subreddit_data polarity table name ?all listing_fails st"
  have run: "scrape_posts polarity table name ?all ?st0 = scrape_posts polarity table name after ?sty"
    by (simp add: scrape_posts_append)
  have "reddit_posts ?sty = reddit_posts ?stx"
    using assms by (rule scrape_post_failure_same)
  then have "reddit_posts (scrape_posts polarity table name after ?sty) =
      reddit_posts (scrape_posts polarity table name after ?stx)"
    by (rule scrape_posts_table_only)
  then have same: "reddit_posts ?fin =
      reddit_posts (scrape_subreddit_data polarity table name (before @ after) listing_fails st)"
    unfolding reddit_posts_scrape_subreddit_data run by (simp add: scrape_posts_append)
  have others: "rp_id q \<in> set (map reddit_id (reddit_posts ?fin))"
    if "(q, g) \<in> set (before @ after)" "g = No_fault" "fst (process_post polarity table q) \<noteq> None" for q g
  proof -
    from that have "(q, No_fault) \<in> set ?all" by auto
    then have "rp_id q \<in> set (map reddit_id (reddit_posts (scrape_posts polarity table name ?all ?st0))) \<or>
        fst (process_post polarity table q) = None"
      by (rule scrape_posts_item_settles)
    with that(3) show ?thesis unfolding reddit_posts_scrape_subreddit_data by auto
  qed
  have logged: "Post_error \<in> set (log_lines ?fin) \<or> Process_error (rp_id post) \<in> set (log_lines ?fin)"
    if h: "f = Select_fails \<or>
          (rp_id post \<notin> set (map reddit_id (reddit_posts
              (scrape_subreddit_data polarity table name before False st))) \<and>
           (fst (process_post polarity table post) = None \<or> f = Insert_fails))"
  proof -
    from h have "f = Select_fails \<or>
        (rp_id post \<notin> set (map reddit_id (reddit_posts ?stx)) \<and>
         (fst (process_post polarity table post) = None \<or> f = Insert_fails))"
      unfolding reddit_posts_scrape_subreddit_data .
    then have here: "Post_error \<in> set (log_lines ?sty) \<or> Process_error (rp_id post) \<in> set (log_lines ?sty)"
      by (rule scrape_post_failure_logged)
    obtain more where "log_lines (scrape_posts polarity table name after ?sty) = log_lines ?sty @ more"
      using log_lines_scrape_posts by blast
    then have "set (log_lines ?sty) \<subseteq> set (log_lines ?fin)"
      unfolding scrape_subreddit_data_def Let_def run by auto
    with here show ?thesis by blast
  qed
  from same others logged show ?thesis by blast
qed

text \<open>
  A batch of three posts whose second has no title: the first and the third are
  inserted, and the log holds the error line of the second between the two inserts.
\<close>

theorem scrape_failure_skips_one_post_witness:
  "reddit_posts (scrape_subreddit_data (\<lambda>t. Some 0) (\<lambda>whole i. [whole ! i]) ''thca''
      [(\<lparr> rp_id = ''a1'', rp_subreddit = Some ''thca'', rp_title = Some (str ''First''), rp_selftext = [],
          rp_author = None, rp_permalink = ''/r/thca/a1'', rp_created_utc = Some 1700000000,
          rp_score = 3, rp_upvote_ratio = 1, rp_num_comments = 0 \<rparr>, No_fault),
       (\<lparr> rp_id = ''m9'', rp_subreddit = Some ''thca'', rp_title = None, rp_selftext = [],
          rp_author = None, rp_permalink = ''/r/thca/m9'', rp_created_utc = Some 1700000000,
          rp_score = 3, rp_upvote_ratio = 1, rp_num_comments = 0 \<rparr>, No_fault),
       (\<lparr> rp_id = ''b2'', rp_subreddit = Some ''thca'', rp_title = Some (str ''Second''), rp_selftext = [],
          rp_author = None, rp_permalink = ''/r/thca/a1'', rp_created_utc = Some 1700000000,
          rp_score = 3, rp_upvote_ratio = 1, rp_num_comments = 0 \<rparr>, No_fault)]
      False \<lparr> reddit_posts = [], log_lines = [] \<rparr>) =
   reddit_posts (scrape_subreddit_data (\<lambda>t. Some 0) (\<lambda>whole i. [whole ! i]) ''thca''
      [(\<lparr> rp_id = ''a1'', rp_subreddit = Some ''thca'', rp_title = Some (str ''First''), rp_selftext = [],
          rp_author = None, rp_permalink = ''/r/thca/a1'', rp_created_utc = Some 1700000000,
          rp_score = 3, rp_upvote_ratio = 1, rp_num_comments = 0 \<rparr>, No_fault),
       (\<lparr> rp_id = ''b2'', rp_subreddit = Some ''thca'', rp_title = Some (str ''Second''), rp_selftext = [],
          rp_author = None, rp_permalink = ''/r/thca/a1'', rp_created_utc = Some 1700000000,
          rp_score = 3, rp_upvote_ratio = 1, rp_num_comments = 0 \<rparr>, No_fault)]
      False \<lparr> reddit_posts = [], log_lines = [] \<rparr>) \<and>
   map reddit_id (reddit_posts (scrape_subreddit_data (\<lambda>t. Some 0) (\<lambda>whole i. [whole ! i]) ''thca''
      [(\<lparr> rp_id = ''a1'', rp_subreddit = Some ''thca'', rp_title = Some (str ''First''), rp_selftext = [],
          rp_author = None, rp_permalink = ''/r/thca/a1'', rp_created_utc = Some 1700000000,
          rp_score = 3, rp_upvote_ratio = 1, rp_num_comments = 0 \<rparr>, No_fault),
       (\<lparr> rp_id = ''m9'', rp_subreddit = Some ''thca'', rp_title = None, rp_selftext = [],
          rp_author = None, rp_permalink = ''/r/thca/m9'', rp_created_utc = Some 1700000000,
          rp_score = 3, rp_upvote_ratio = 1, rp_num_comments = 0 \<rparr>, No_fault),
       (\<lparr> rp_id = ''b2'', rp_subreddit = Some ''thca'', rp_title = Some (str ''Second''), rp_selftext = [],
          rp_author = None, rp_permalink = ''/r/thca/a1'', rp_created_utc = Some 1700000000,
          rp_score = 3, rp_upvote_ratio = 1, rp_num_comments = 0 \<rparr>, No_fault)]
      False \<lparr> reddit_posts = [], log_lines = [] \<rparr>)) = [''a1'', ''b2''] \<and>
   log_lines (scrape_subreddit_data (\<lambda>t. Some 0) (\<lambda>whole i. [whole ! i]) ''thca''
      [(\<lparr> rp_id = ''a1'', rp_subreddit = Some ''thca'', rp_title = Some (str ''First''), rp_selftext = [],
          rp_author = None, rp_permalink = ''/r/thca/a1'', rp_created_utc = Some 1700000000,
          rp_score = 3, rp_upvote_ratio = 1, rp_num_comments = 0 \<rparr>, No_fault),
       (\<lparr> rp_id = ''m9'', rp_subreddit = Some ''thca'', rp_title = None, rp_selftext = [],
          rp_author = None, rp_permalink = ''/r/thca/m9'', rp_created_utc = Some 1700000000,
          rp_score = 3, rp_upvote_ratio = 1, rp_num_comments = 0 \<rparr>, No_fault),
       (\<lparr> rp_id = ''b2'', rp_subreddit = Some ''thca'', rp_title = Some (str ''Second''), rp_selftext = [],
          rp_author = None, rp_permalink = ''/r/thca/a1'', rp_created_utc = Some 1700000000,
          rp_score = 3, rp_upvote_ratio = 1, rp_num_comments = 0 \<rparr>, No_fault)]
      False \<lparr> reddit_posts = [], log_lines = [] \<rparr>) =
     [Scrape_start ''thca'', Inserted ''a1'' ''thca'', Process_error ''m9'', Inserted ''b2'' ''thca'']"
proof -
  let ?a = "\<lparr> rp_id = ''a1'', rp_subreddit = Some ''thca'', rp_title = Some (str ''First''), rp_selftext = [],
          rp_author = None, rp_permalink = ''/r/thca/a1'', rp_created_utc = Some 1700000000,
          rp_score = 3, rp_upvote_ratio = 1, rp_num_comments = 0 \<rparr>"
  let ?m = "\<lparr> rp_id = ''m9'', rp_subreddit = Some ''thca'', rp_title = None, rp_selftext = [],
          rp_author = None, rp_permalink = ''/r/thca/m9'', rp_created_utc = Some 1700000000,
          rp_score = 3, rp_upvote_ratio = 1, rp_num_comments = 0 \<rparr>"
  let ?b = "\<lparr> rp_id = ''b2'', rp_subreddit = Some ''thca'', rp_title = Some (str ''Second''), rp_selftext = [],
          rp_author = None, rp_permalink = ''/r/thca/a1'', rp_created_utc = Some 1700000000,
          rp_score = 3, rp_upvote_ratio = 1, rp_num_comments = 0 \<rparr>"
  let ?st = "\<lparr> reddit_posts = [], log_lines = [] \<rparr>"
  let ?pol = "\<lambda>t::ustring. Some (0::real)"
  let ?tab = "\<lambda>(whole::ustring) i. [whole ! i]"
  have bad: "No_fault = Select_fails \<or> fst (process_post ?pol ?tab ?m) = None \<or> No_fault = Insert_fails"
    by (simp add: process_post_no_title)
  from scrape_failure_skips_one_post [OF bad, of "''thca''" "[(?a, No_fault)]" "[(?b, No_fault)]" False ?st]
  have same: "reddit_posts (scrape_subreddit_data ?pol ?tab ''thca'' [(?a, No_fault), (?m, No_fault), (?b, No_fault)] False ?st) =
      reddit_posts (scrape_subreddit_data ?pol ?tab ''thca'' [(?a, No_fault), (?b, No_fault)] False ?st)"
    by simp
  have ids: "map reddit_id (reddit_posts (scrape_subreddit_data ?pol ?tab ''thca'' [(?a, No_fault), (?b, No_fault)] False ?st)) =
      [''a1'', ''b2'']"
    by (simp add: scrape_eval)
  have lg: "log_lines (scrape_subreddit_data ?pol ?tab ''thca'' [(?a, No_fault), (?m, No_fault), (?b, No_fault)] False ?st) =
     [Scrape_start ''thca'', Inserted ''a1'' ''thca'', Process_error ''m9'', Inserted ''b2'' ''thca'']"
    by (simp add: scrape_eval process_post_no_title)
  from same ids lg show ?thesis by simp
qed

section \<open>The refresh pass\<close>

text \<open>
  The table after any part of the refresh pass is the table before it with the rows of
  some identifiers refreshed from the live source.
\<close>

lemma refreshed_reddit_id [simp]: "reddit_id (refreshed live ids r) = reddit_id r"
  by (simp add: refreshed_def split: option.splits prod.splits)

lemma without_counters_refreshed [simp]: "without_counters (refreshed live ids r) = without_counters r"
  by (simp add: refreshed_def without_counters_def split: option.splits prod.splits)

lemma refreshed_twice: "refreshed live ids (refreshed live ids' r) = refreshed live (ids \<union> ids') r"
  by (cases "live (reddit_id r)") (auto simp: refreshed_def)

lemma refreshed_empty [simp]: "refreshed live {} r = r"
  by (simp add: refreshed_def split: option.splits prod.splits)

lemma map_refreshed_empty [simp]: "map (refreshed live {}) rows = rows"
  by (simp add: map_idI)

lemma update_by_reddit_id_refreshed:
  assumes "live rid = Some counters"
  shows "update_by_reddit_id rid counters rows = map (refreshed live {rid}) rows"
proof -
  obtain s n u where c: "counters = (s, n, u)" by (cases counters)
  have "(if reddit_id r = rid then r\<lparr>score := s, num_comments := n, upvote_ratio := u\<rparr> else r) =
      refreshed live {rid} r" for r
    using assms c by (cases "live (reddit_id r)") (auto simp: refreshed_def)
  then show ?thesis by (simp add: update_by_reddit_id_def c)
qed

lemma refreshed_not_live:
  assumes "live rid = None"
  shows "map (refreshed live {rid}) rows = rows"
proof -
  have "refreshed live {rid} r = r" for r
    using assms by (cases "live (reddit_id r)") (auto simp: refreshed_def)
  then show ?thesis by (simp add: map_idI)
qed

lemma map_refreshed_twice:
  "map (refreshed live ids) (map (refreshed live ids') rows) = map (refreshed live (ids \<union> ids')) rows"
  by (simp add: refreshed_twice)

text \<open>One iteration of the refresh loop refreshes the rows of one identifier, or none.\<close>

lemma update_post_refreshed:
  "\<exists>ids. reddit_posts (update_post live fails post_data st) = map (refreshed live ids) (reddit_posts st) \<and>
         ids \<subseteq> {reddit_id post_data} \<and> (\<not> fails \<longrightarrow> ids = {reddit_id post_data})"
proof (cases "live (reddit_id post_data)")
  case None
  then have "reddit_posts (update_post live fails post_data st) =
      map (refreshed live {reddit_id post_data}) (reddit_posts st)"
    by (simp add: update_post_def refreshed_not_live)
  then show ?thesis by blast
next
  case (Some counters)
  show ?thesis
  proof (cases fails)
    case True
    with Some have "reddit_posts (update_post live fails post_data st) = map (refreshed live {}) (reddit_posts st)"
      by (simp add: update_post_def)
    with True show ?thesis by blast
  next
    case False
    with Some have "reddit_posts (update_post live fails post_data st) =
        map (refreshed live {reddit_id post_data}) (reddit_posts st)"
      using update_by_reddit_id_refreshed [of live "reddit_id post_data" counters "reddit_posts st"]
      by (simp add: update_post_def)
    then show ?thesis by blast
  qed
qed

lemma update_posts_refreshed:
  "\<exists>ids. reddit_posts (update_posts live update_fails i rest st) = map (refreshed live ids) (reddit_posts st) \<and>
         ids \<subseteq> reddit_id ` set rest \<and> ((\<forall>j. \<not> update_fails j) \<longrightarrow> ids = reddit_id ` set rest)"
proof (induction rest arbitrary: i st)
  case Nil
  have "reddit_posts (update_posts live update_fails i [] st) = map (refreshed live {}) (reddit_posts st)"
    by simp
  then show ?case by blast
next
  case (Cons post_data rest)
  let ?st = "update_post live (update_fails i) post_data st"
  obtain a where a: "reddit_posts ?st = map (refreshed live a) (reddit_posts st)"
      "a \<subseteq> {reddit_id post_data}" "\<not> update_fails i \<longrightarrow> a = {reddit_id post_data}"
    using update_post_refreshed[of live "update_fails i" post_data st] by blast
  obtain b where b: "reddit_posts (update_posts live update_fails (Suc i) rest ?st) =
        map (refreshed live b) (reddit_posts ?st)"
      "b \<subseteq> reddit_id ` set rest" "(\<forall>j. \<not> update_fails j) \<longrightarrow> b = reddit_id ` set rest"
    using Cons.IH[of "Suc i" ?st] by blast
  have "reddit_posts (update_posts live update_fails i (post_data # rest) st) =
      map (refreshed live (b \<union> a)) (reddit_posts st)"
    using a(1) b(1) by (simp add: refreshed_twice)
  moreover from a(2) b(2) have "b \<union> a \<subseteq> reddit_id ` set (post_data # rest)" by auto
  moreover from a(3) b(3) have "(\<forall>j. \<not> update_fails j) \<longrightarrow> b \<union> a = reddit_id ` set (post_data # rest)"
    by auto
  ultimately show ?case by blast
qed

lemma update_existing_posts_refreshed:
  "\<exists>ids. reddit_posts (update_existing_posts live select_fails update_fails st) =
           map (refreshed live ids) (reddit_posts st) \<and>
         (\<not> select_fails \<and> (\<forall>j. \<not> update_fails j) \<longrightarrow> ids = reddit_id ` set (reddit_posts st))"
proof (cases select_fails)
  case True
  then have "reddit_posts (update_existing_posts live select_fails update_fails st) =
      map (refreshed live {}) (reddit_posts st)"
    by (simp add: update_existing_posts_def Let_def)
  with True show ?thesis by blast
next
  case False
  let ?st1 = "logs [Update_start] st"
  obtain ids where "reddit_posts (update_posts live update_fails 0 (reddit_posts ?st1) ?st1) =
        map (refreshed live ids) (reddit_posts ?st1)"
      "(\<forall>j. \<not> update_fails j) \<longrightarrow> ids = reddit_id ` set (reddit_posts ?st1)"
    using update_posts_refreshed[of live update_fails 0 "reddit_posts ?st1" ?st1] by blast
  with False have "reddit_posts (update_existing_posts live select_fails update_fails st) =
        map (refreshed live ids) (reddit_posts st)"
      "(\<forall>j. \<not> update_fails j) \<longrightarrow> ids = reddit_id ` set (reddit_posts st)"
    by (simp_all add: update_existing_posts_def Let_def)
  then show ?thesis by blast
qed

lemma refreshed_fields [simp]:
  "post_type (refreshed live ids r) = post_type r"
  "sentiment_score (refreshed live ids r) = sentiment_score r"
  "extracted_vendor_name (refreshed live ids r) = extracted_vendor_name r"
  by (simp_all add: refreshed_def split: option.splits prod.splits)

text \<open>
  C4. The refresh pass changes nothing but the three counters: the rows without
  \<open>score\<close>, \<open>num_comments\<close> and \<open>upvote_ratio\<close> are the same rows, in the same
  order, after the pass as before it, whatever fails during the pass; in particular
  \<open>post_type\<close>, \<open>sentiment_score\<close> and \<open>extracted_vendor_name\<close> are unchanged. After
  a pass in which no call of the table failed, a second pass over the same live values
  leaves the whole table, and so the three counters, unchanged.
\<close>

theorem refresh_changes_counters_only:
  "map without_counters (reddit_posts (update_existing_posts live select_fails update_fails st)) =
     map without_counters (reddit_posts st) \<and>
   map post_type (reddit_posts (update_existing_posts live select_fails update_fails st)) =
     map post_type (reddit_posts st) \<and>
   map sentiment_score (reddit_posts (update_existing_posts live select_fails update_fails st)) =
     map sentiment_score (reddit_posts st) \<and>
   map extracted_vendor_name (reddit_posts (update_existing_posts live select_fails update_fails st)) =
     map extracted_vendor_name (reddit_posts st) \<and>
   reddit_posts (update_existing_posts live select_fails update_fails
                   (update_existing_posts live False (\<lambda>i. False) st)) =
     reddit_posts (update_existing_posts live False (\<lambda>i. False) st)"
proof -
  obtain ids where ids: "reddit_posts (update_existing_posts live select_fails update_fails st) =
      map (refreshed live ids) (reddit_posts st)"
    using update_existing_posts_refreshed by blast
  let ?all = "reddit_id ` set (reddit_posts st)"
  let ?st1 = "update_existing_posts live False (\<lambda>i. False) st"
  have first: "reddit_posts ?st1 = map (refreshed live ?all) (reddit_posts st)"
    using update_existing_posts_refreshed[of live False "\<lambda>i. False" st] by auto
  obtain ids2 where "reddit_posts (update_existing_posts live select_fails update_fails ?st1) =
      map (refreshed live ids2) (reddit_posts ?st1)"
    using update_existing_posts_refreshed by blast
  then have "reddit_posts (update_existing_posts live select_fails update_fails ?st1) =
      map (refreshed live (ids2 \<union> ?all)) (reddit_posts st)"
    unfolding first by (simp add: refreshed_twice)
  also have "\<dots> = map (refreshed live ?all) (reddit_posts st)"
  proof (rule map_cong[OF refl])
    fix r assume "r \<in> set (reddit_posts st)"
    then have "reddit_id r \<in> ?all" by simp
    then show "refreshed live (ids2 \<union> ?all) r = refreshed live ?all r"
      by (simp add: refreshed_def split: option.splits prod.splits)
  qed
  finally have idem: "reddit_posts (update_existing_posts live select_fails update_fails ?st1) =
      reddit_posts ?st1"
    unfolding first .
  from ids idem show ?thesis by (simp add: comp_def)
qed

text \<open>
  Two rows, the second deleted upstream: the pass sets the score of the first to the
  live value, keeps the score of the second, and a second pass changes nothing.
\<close>

theorem refresh_changes_counters_only_witness:
  "map score (reddit_posts (update_existing_posts (\<lambda>rid. if rid = ''a1'' then Some (10, 4, 9 / 10) else None) False (\<lambda>i. False)
     (\<lparr> reddit_posts =
        [\<lparr> reddit_id = ''a1'', subreddit = ''thca'', title = str ''Great review'', content = [],
          author = ''bob'', url = ''https://reddit.com/r/thca/a1'', created_utc = 1700000000,
          score = 3, upvote_ratio = 1, num_comments = 0, post_type = ''review'',
          sentiment_score = 1 / 2, extracted_vendor_name = None, processed = False \<rparr>,
         \<lparr> reddit_id = ''b2'', subreddit = ''thca'', title = str ''Hello'', content = [],
          author = ''None'', url = ''https://reddit.com/r/thca/b2'', created_utc = 1700000100,
          score = 3, upvote_ratio = 1, num_comments = 7, post_type = ''discussion'',
          sentiment_score = 0, extracted_vendor_name = Some (str ''Acme''), processed = False \<rparr>],
       log_lines = [] \<rparr>))) = [10, 3] \<and>
   map post_type (reddit_posts (update_existing_posts (\<lambda>rid. if rid = ''a1'' then Some (10, 4, 9 / 10) else None) False (\<lambda>i. False)
     (\<lparr> reddit_posts =
        [\<lparr> reddit_id = ''a1'', subreddit = ''thca'', title = str ''Great review'', content = [],
          author = ''bob'', url = ''https://reddit.com/r/thca/a1'', created_utc = 1700000000,
          score = 3, upvote_ratio = 1, num_comments = 0, post_type = ''review'',
          sentiment_score = 1 / 2, extracted_vendor_name = None, processed = False \<rparr>,
         \<lparr> reddit_id = ''b2'', subreddit = ''thca'', title = str ''Hello'', content = [],
          author = ''None'', url = ''https://reddit.com/r/thca/b2'', created_utc = 1700000100,
          score = 3, upvote_ratio = 1, num_comments = 7, post_type = ''discussion'',
          sentiment_score = 0, extracted_vendor_name = Some (str ''Acme''), processed = False \<rparr>],
       log_lines = [] \<rparr>))) = [''review'', ''discussion''] \<and>
   reddit_posts (update_existing_posts (\<lambda>rid. if rid = ''a1'' then Some (10, 4, 9 / 10) else None) False (\<lambda>i. False)
     (update_existing_posts (\<lambda>rid. if rid = ''a1'' then Some (10, 4, 9 / 10) else None) False (\<lambda>i. False)
     (\<lparr> reddit_posts =
        [\<lparr> reddit_id = ''a1'', subreddit = ''thca'', title = str ''Great review'', content = [],
          author = ''bob'', url = ''https://reddit.com/r/thca/a1'', created_utc = 1700000000,
          score = 3, upvote_ratio = 1, num_comments = 0, post_type = ''review'',
          sentiment_score = 1 / 2, extracted_vendor_name = None, processed = False \<rparr>,
         \<lparr> reddit_id = ''b2'', subreddit = ''thca'', title = str ''Hello'', content = [],
          author = ''None'', url = ''https://reddit.com/r/thca/b2'', created_utc = 1700000100,
          score = 3, upvote_ratio = 1, num_comments = 7, post_type = ''discussion'',
          sentiment_score = 0, extracted_vendor_name = Some (str ''Acme''), processed = False \<rparr>],
       log_lines = [] \<rparr>))) =
   reddit_posts (update_existing_posts (\<lambda>rid. if rid = ''a1'' then Some (10, 4, 9 / 10) else None) False (\<lambda>i. False)
     (\<lparr> reddit_posts =
        [\<lparr> reddit_id = ''a1'', subreddit = ''thca'', title = str ''Great review'', content = [],
          author = ''bob'', url = ''https://reddit.com/r/thca/a1'', created_utc = 1700000000,
          score = 3, upvote_ratio = 1, num_comments = 0, post_type = ''review'',
          sentiment_score = 1 / 2, extracted_vendor_name = None, processed = False \<rparr>,
         \<lparr> reddit_id = ''b2'', subreddit = ''thca'', title = str ''Hello'', content = [],
          author = ''None'', url = ''https://reddit.com/r/thca/b2'', created_utc = 1700000100,
          score = 3, upvote_ratio = 1, num_comments = 7, post_type = ''discussion'',
          sentiment_score = 0, extracted_vendor_name = Some (str ''Acme''), processed = False \<rparr>],
       log_lines = [] \<rparr>))"
proof -
  let ?live = "(\<lambda>rid. if rid = ''a1'' then Some (10, 4, 9 / 10) else None) :: live_source"
  let ?st = "\<lparr> reddit_posts =
        [\<lparr> reddit_id = ''a1'', subreddit = ''thca'', title = str ''Great review'', content = [],
          author = ''bob'', url = ''https://reddit.com/r/thca/a1'', created_utc = 1700000000,
          score = 3, upvote_ratio = 1, num_comments = 0, post_type = ''review'',
          sentiment_score = 1 / 2, extracted_vendor_name = None, processed = False \<rparr>,
         \<lparr> reddit_id = ''b2'', subreddit = ''thca'', title = str ''Hello'', content = [],
          author = ''None'', url = ''https://reddit.com/r/thca/b2'', created_utc = 1700000100,
          score = 3, upvote_ratio = 1, num_comments = 7, post_type = ''discussion'',
          sentiment_score = 0, extracted_vendor_name = Some (str ''Acme''), processed = False \<rparr>],
       log_lines = [] \<rparr>"
  let ?u = "update_existing_posts ?live False (\<lambda>i. False)"
  have sc: "map score (reddit_posts (?u ?st)) = [10, 3]"
    by (simp add: update_existing_posts_def update_post_def update_by_reddit_id_def logs_def Let_def)
  from refresh_changes_counters_only [of ?live False "\<lambda>i. False" ?st]
  have "map post_type (reddit_posts (?u ?st)) = map post_type (reddit_posts ?st)"
    and "reddit_posts (?u (?u ?st)) = reddit_posts (?u ?st)"
    by blast+
  with sc show ?thesis by simp
qed

end
